theory Spec2Isabelle
  imports Main "HOL-Library.Word"
begin

unbundle bit_operations_syntax

section \<open>Values, column types and errors\<close>

type_synonym bytes = "8 word list"

text \<open>
  Modelled from the spec: the enumeration \<open>ignite_type\<close> is declared outside
  \<open>table_impl.cpp\<close>. The nine types the codec dispatches on are constructors of
  their own; \<open>OTHER n\<close> is any type outside that set, with numeric id \<open>n\<close>.
\<close>

datatype ignite_type =
  INT8 | INT16 | INT32 | INT64 | FLOAT | DOUBLE | UUID | STRING | BINARY | OTHER int

text \<open>
  Every \<open>throw\<close> of the source is a value. \<open>ignite_error msg\<close> is the exception class
  the source throws with a message. The others come from the collaborators, after the
  error kinds of the spec: \<open>FieldNotFound\<close> and \<open>TypeMismatch\<close> from the accessors of
  the record, \<open>Protocol\<close> from the reader and the tuple parser (unexpected tag, short
  read, malformed tuple), \<open>Transport\<close> from the connection, \<open>length_error\<close> from a
  vector asked to reserve more than it can hold, and \<open>Undefined\<close> where C++
  leaves the behaviour undefined (a vector indexed out of range, a null pointer
  dereferenced).
\<close>

datatype error =
  ignite_error string
  | FieldNotFound string
  | TypeMismatch
  | Protocol
  | Transport
  | length_error
  | Undefined

text \<open>\<open>std::to_string(int)\<close>, for the message of the unsupported-type error.\<close>

definition digit_char :: "nat \<Rightarrow> char" where
  "digit_char d = char_of (48 + d)"

function digits :: "nat \<Rightarrow> string" where
  "digits n = (if n < 10 then [digit_char n] else digits (n div 10) @ [digit_char (n mod 10)])"
  by pat_completeness auto
termination
  by (relation "measure (\<lambda>n. n)") auto

definition to_string :: "int \<Rightarrow> string" where
  "to_string i = (if i < 0 then CHR ''-'' # digits (nat (- i)) else digits (nat i))"

definition type_not_supported :: "int \<Rightarrow> error" where
  "type_not_supported n = ignite_error (''Type with id '' @ to_string n @ '' is not yet supported'')"

text \<open>
  A value slot of a record is a \<open>std::any\<close>: empty, or one of the supported primitives.
  FLOAT and DOUBLE values are carried as their IEEE-754 bit patterns (the codec only
  copies the bits), a UUID as its 128 bits, a \<open>std::string\<close> as its characters.
\<close>

datatype std_any =
  Empty
  | Int8 "8 word"
  | Int16 "16 word"
  | Int32 "32 word"
  | Int64 "64 word"
  | Float "32 word"
  | Double "64 word"
  | Uuid "128 word"
  | Str string
  | Bin bytes

section \<open>The record model (\<open>ignite_tuple\<close>)\<close>

text \<open>
  Modelled from the spec: the class \<open>ignite_tuple\<close> is declared outside \<open>table_impl.cpp\<close>.
  A record is an ordered sequence of (column name, value) pairs. The lookup of an
  ordinal by name is case-insensitive and gives \<open>-1\<close> on a miss; \<open>set\<close> inserts a
  field or overwrites the value of the field of that name; \<open>get\<close> by name fails with \<open>FieldNotFound\<close> on a miss; the typed accessors
  fail with \<open>TypeMismatch\<close> when the stored value has another type. The constructor
  taking a number reserves capacity and gives the empty record. The overloads of \<open>get\<close>
  and \<open>set\<close> are \<open>get_index\<close> (by ordinal), \<open>get_name\<close> and \<open>set_name\<close> (by name),
  and \<open>get_int8\<close> and so on for \<open>get<T>\<close> by ordinal.
\<close>

type_synonym ignite_tuple = "(string \<times> std_any) list"

definition to_upper :: "char \<Rightarrow> char" where
  "to_upper c =
     (let n = (of_char c :: nat) in if 97 \<le> n \<and> n \<le> 122 then char_of (n - 32) else c)"

definition parse_name :: "string \<Rightarrow> string" where
  "parse_name s = map to_upper s"

fun find_ordinal :: "ignite_tuple \<Rightarrow> string \<Rightarrow> int \<Rightarrow> int" where
  "find_ordinal [] key i = - 1"
| "find_ordinal ((n, v) # ps) key i =
     (if parse_name n = key then i else find_ordinal ps key (i + 1))"

definition column_ordinal :: "ignite_tuple \<Rightarrow> string \<Rightarrow> int" where
  "column_ordinal t n = find_ordinal t (parse_name n) 0"

definition ignite_tuple :: "int \<Rightarrow> ignite_tuple" where
  "ignite_tuple capacity = []"

definition get_index :: "ignite_tuple \<Rightarrow> int \<Rightarrow> error + std_any" where
  "get_index t idx =
     (if 0 \<le> idx \<and> idx < int (length t) then Inr (snd (t ! nat idx)) else Inl Undefined)"

definition get_name :: "ignite_tuple \<Rightarrow> string \<Rightarrow> error + std_any" where
  "get_name t n =
     (let idx = column_ordinal t n in
      if idx < 0 then Inl (FieldNotFound n) else get_index t idx)"

definition set_name :: "ignite_tuple \<Rightarrow> string \<Rightarrow> std_any \<Rightarrow> ignite_tuple" where
  "set_name t n v =
     (let idx = column_ordinal t n in
      if idx < 0 then t @ [(n, v)] else t[nat idx := (fst (t ! nat idx), v)])"

definition get_int8 :: "ignite_tuple \<Rightarrow> int \<Rightarrow> error + 8 word" where
  "get_int8 t idx =
     (case get_index t idx of Inl e \<Rightarrow> Inl e | Inr (Int8 v) \<Rightarrow> Inr v | Inr _ \<Rightarrow> Inl TypeMismatch)"

definition get_int16 :: "ignite_tuple \<Rightarrow> int \<Rightarrow> error + 16 word" where
  "get_int16 t idx =
     (case get_index t idx of Inl e \<Rightarrow> Inl e | Inr (Int16 v) \<Rightarrow> Inr v | Inr _ \<Rightarrow> Inl TypeMismatch)"

definition get_int32 :: "ignite_tuple \<Rightarrow> int \<Rightarrow> error + 32 word" where
  "get_int32 t idx =
     (case get_index t idx of Inl e \<Rightarrow> Inl e | Inr (Int32 v) \<Rightarrow> Inr v | Inr _ \<Rightarrow> Inl TypeMismatch)"

definition get_int64 :: "ignite_tuple \<Rightarrow> int \<Rightarrow> error + 64 word" where
  "get_int64 t idx =
     (case get_index t idx of Inl e \<Rightarrow> Inl e | Inr (Int64 v) \<Rightarrow> Inr v | Inr _ \<Rightarrow> Inl TypeMismatch)"

definition get_float :: "ignite_tuple \<Rightarrow> int \<Rightarrow> error + 32 word" where
  "get_float t idx =
     (case get_index t idx of Inl e \<Rightarrow> Inl e | Inr (Float v) \<Rightarrow> Inr v | Inr _ \<Rightarrow> Inl TypeMismatch)"

definition get_double :: "ignite_tuple \<Rightarrow> int \<Rightarrow> error + 64 word" where
  "get_double t idx =
     (case get_index t idx of Inl e \<Rightarrow> Inl e | Inr (Double v) \<Rightarrow> Inr v | Inr _ \<Rightarrow> Inl TypeMismatch)"

definition get_uuid :: "ignite_tuple \<Rightarrow> int \<Rightarrow> error + 128 word" where
  "get_uuid t idx =
     (case get_index t idx of Inl e \<Rightarrow> Inl e | Inr (Uuid v) \<Rightarrow> Inr v | Inr _ \<Rightarrow> Inl TypeMismatch)"

definition get_string :: "ignite_tuple \<Rightarrow> int \<Rightarrow> error + string" where
  "get_string t idx =
     (case get_index t idx of Inl e \<Rightarrow> Inl e | Inr (Str v) \<Rightarrow> Inr v | Inr _ \<Rightarrow> Inl TypeMismatch)"

definition get_bytes :: "ignite_tuple \<Rightarrow> int \<Rightarrow> error + bytes" where
  "get_bytes t idx =
     (case get_index t idx of Inl e \<Rightarrow> Inl e | Inr (Bin v) \<Rightarrow> Inr v | Inr _ \<Rightarrow> Inl TypeMismatch)"

section \<open>Schema\<close>

text \<open>
  Modelled from the spec: \<open>column\<close> and \<open>schema\<close> are declared outside
  \<open>table_impl.cpp\<close>. A \<open>std::shared_ptr<schema>\<close> is a \<open>schema option\<close>, \<open>None\<close> the null
  pointer.
\<close>

record column =
  name :: string
  type :: ignite_type
  nullable :: bool
  is_key :: bool

record schema =
  version :: int
  key_column_count :: int
  columns :: "column list"

text \<open>The conversions \<open>std::int32_t(x)\<close> and \<open>std::size_t(x)\<close>, wrapping around.\<close>

definition int32_t :: "int \<Rightarrow> int" where
  "int32_t x = (x + 2 ^ 31) mod 2 ^ 32 - 2 ^ 31"

definition size_t :: "int \<Rightarrow> nat" where
  "size_t x = nat (x mod 2 ^ 64)"

text \<open>\<open>sch.columns[i]\<close>: indexing a vector out of range is undefined behaviour.\<close>

definition column_at :: "schema \<Rightarrow> int \<Rightarrow> error + column" where
  "column_at sch i =
     (if 0 \<le> i \<and> i < int (length (columns sch)) then Inr (columns sch ! nat i)
      else Inl Undefined)"

section \<open>Payloads of the primitive types\<close>

text \<open>
  Modelled from the spec: the binary tuple builder and parser are declared outside
  \<open>table_impl.cpp\<close>. Integers travel as two's complement little-endian bytes of their
  width, FLOAT and DOUBLE as the bytes of their bit pattern, a UUID as 16 big-endian
  bytes, a string as its characters, a byte blob as it is.
\<close>

fun nat_to_le :: "nat \<Rightarrow> nat \<Rightarrow> bytes" where
  "nat_to_le 0 x = []"
| "nat_to_le (Suc n) x = of_nat (x mod 256) # nat_to_le n (x div 256)"

fun le_to_nat :: "bytes \<Rightarrow> nat" where
  "le_to_nat [] = 0"
| "le_to_nat (b # bs) = unat b + 256 * le_to_nat bs"

definition encode_le :: "nat \<Rightarrow> 'a::len word \<Rightarrow> bytes" where
  "encode_le n w = nat_to_le n (unat w)"

definition decode_le :: "bytes \<Rightarrow> 'a::len word" where
  "decode_le bs = of_nat (le_to_nat bs)"

definition byte_of_char :: "char \<Rightarrow> 8 word" where
  "byte_of_char c = of_nat (of_char c)"

definition char_of_byte :: "8 word \<Rightarrow> char" where
  "char_of_byte b = char_of (unat b)"

definition parser_get_int8 :: "bytes \<Rightarrow> 8 word" where
  "parser_get_int8 val = decode_le val"

definition parser_get_int16 :: "bytes \<Rightarrow> 16 word" where
  "parser_get_int16 val = decode_le val"

definition parser_get_int32 :: "bytes \<Rightarrow> 32 word" where
  "parser_get_int32 val = decode_le val"

definition parser_get_int64 :: "bytes \<Rightarrow> 64 word" where
  "parser_get_int64 val = decode_le val"

definition parser_get_float :: "bytes \<Rightarrow> 32 word" where
  "parser_get_float val = decode_le val"

definition parser_get_double :: "bytes \<Rightarrow> 64 word" where
  "parser_get_double val = decode_le val"

definition parser_get_uuid :: "bytes \<Rightarrow> 128 word" where
  "parser_get_uuid val = decode_le (rev val)"

section \<open>Binary tuple builder and parser\<close>

text \<open>
  Modelled from the spec: a binary tuple is a prefix-length-indexed sequence of field
  payloads, each field absent or a payload of bytes; it is built in two passes (claim,
  then append) and parsed in one pass by \<open>get_next\<close>, which yields an optional view of
  bytes. The bytes of a tuple are represented by the sequence of fields they delimit.
  A parser over a tuple with another number of fields than its own has a malformed
  tuple before it (\<open>Protocol\<close>). The two overloads of \<open>append\<close> of the builder are
  \<open>append_field\<close> (an optional payload) and \<open>append_typed\<close> (a type and a payload);
  the static decoders \<open>binary_tuple_parser::get_int8\<close> and so on are \<open>parser_get_int8\<close>
  and so on.
\<close>

type_synonym binary_tuple = "bytes option list"

record binary_tuple_builder =
  element_count :: int
  claimed :: "nat option list"
  entries :: "bytes option list"

definition binary_tuple_builder :: "int \<Rightarrow> binary_tuple_builder" where
  "binary_tuple_builder cnt = \<lparr>element_count = cnt, claimed = [], entries = []\<rparr>"

definition start :: "binary_tuple_builder \<Rightarrow> binary_tuple_builder" where
  "start b = b\<lparr>claimed := [], entries := []\<rparr>"

definition claim :: "binary_tuple_builder \<Rightarrow> nat option \<Rightarrow> binary_tuple_builder" where
  "claim b sz = b\<lparr>claimed := claimed b @ [sz]\<rparr>"

definition claim_int8 :: "binary_tuple_builder \<Rightarrow> 8 word \<Rightarrow> binary_tuple_builder" where
  "claim_int8 b v = claim b (Some 1)"

definition claim_int16 :: "binary_tuple_builder \<Rightarrow> 16 word \<Rightarrow> binary_tuple_builder" where
  "claim_int16 b v = claim b (Some 2)"

definition claim_int32 :: "binary_tuple_builder \<Rightarrow> 32 word \<Rightarrow> binary_tuple_builder" where
  "claim_int32 b v = claim b (Some 4)"

definition claim_int64 :: "binary_tuple_builder \<Rightarrow> 64 word \<Rightarrow> binary_tuple_builder" where
  "claim_int64 b v = claim b (Some 8)"

definition claim_float :: "binary_tuple_builder \<Rightarrow> 32 word \<Rightarrow> binary_tuple_builder" where
  "claim_float b v = claim b (Some 4)"

definition claim_double :: "binary_tuple_builder \<Rightarrow> 64 word \<Rightarrow> binary_tuple_builder" where
  "claim_double b v = claim b (Some 8)"

definition claim_uuid :: "binary_tuple_builder \<Rightarrow> 128 word \<Rightarrow> binary_tuple_builder" where
  "claim_uuid b v = claim b (Some 16)"

definition layout :: "binary_tuple_builder \<Rightarrow> binary_tuple_builder" where
  "layout b = b"

definition append_field :: "binary_tuple_builder \<Rightarrow> bytes option \<Rightarrow> binary_tuple_builder" where
  "append_field b payload = b\<lparr>entries := entries b @ [payload]\<rparr>"

definition append_typed :: "binary_tuple_builder \<Rightarrow> ignite_type \<Rightarrow> bytes \<Rightarrow> binary_tuple_builder" where
  "append_typed b typ view = append_field b (Some view)"

definition append_int8 :: "binary_tuple_builder \<Rightarrow> 8 word \<Rightarrow> binary_tuple_builder" where
  "append_int8 b v = append_field b (Some (encode_le 1 v))"

definition append_int16 :: "binary_tuple_builder \<Rightarrow> 16 word \<Rightarrow> binary_tuple_builder" where
  "append_int16 b v = append_field b (Some (encode_le 2 v))"

definition append_int32 :: "binary_tuple_builder \<Rightarrow> 32 word \<Rightarrow> binary_tuple_builder" where
  "append_int32 b v = append_field b (Some (encode_le 4 v))"

definition append_int64 :: "binary_tuple_builder \<Rightarrow> 64 word \<Rightarrow> binary_tuple_builder" where
  "append_int64 b v = append_field b (Some (encode_le 8 v))"

definition append_float :: "binary_tuple_builder \<Rightarrow> 32 word \<Rightarrow> binary_tuple_builder" where
  "append_float b v = append_field b (Some (encode_le 4 v))"

definition append_double :: "binary_tuple_builder \<Rightarrow> 64 word \<Rightarrow> binary_tuple_builder" where
  "append_double b v = append_field b (Some (encode_le 8 v))"

definition append_uuid :: "binary_tuple_builder \<Rightarrow> 128 word \<Rightarrow> binary_tuple_builder" where
  "append_uuid b v = append_field b (Some (rev (encode_le 16 v)))"

definition build :: "binary_tuple_builder \<Rightarrow> binary_tuple" where
  "build b = entries b"

record binary_tuple_parser =
  num_elements :: int
  remaining :: "bytes option list"

definition binary_tuple_parser :: "int \<Rightarrow> binary_tuple \<Rightarrow> error + binary_tuple_parser" where
  "binary_tuple_parser cnt data =
     (if int (length data) = cnt then Inr \<lparr>num_elements = cnt, remaining = data\<rparr>
      else Inl Protocol)"

definition get_next :: "binary_tuple_parser \<Rightarrow> error + (bytes option \<times> binary_tuple_parser)" where
  "get_next p =
     (case remaining p of
        [] \<Rightarrow> Inl Protocol
      | f # fs \<Rightarrow> Inr (f, p\<lparr>remaining := fs\<rparr>))"

section \<open>The no-value bitset\<close>

text \<open>
  Modelled from the spec: \<open>bitset_span\<close> and \<open>bytes_for_bits\<close> are declared outside
  \<open>table_impl.cpp\<close>. The bitset is a vector of bits over \<open>ceil(count/8)\<close> bytes, bit \<open>i\<close>
  being bit \<open>i mod 8\<close> of byte \<open>i div 8\<close>; the bitset \<open>write_tuple\<close> allocates starts with
  every bit clear. Setting a bit beyond the span is undefined behaviour.
\<close>

definition bytes_for_bits :: "nat \<Rightarrow> nat" where
  "bytes_for_bits n = (n + 7) div 8"

definition bitset_span :: "nat \<Rightarrow> bytes" where
  "bitset_span bytes_num = replicate bytes_num 0"

definition bitset_set :: "bytes \<Rightarrow> nat \<Rightarrow> error + bytes" where
  "bitset_set b i =
     (if i div 8 < length b then Inr (b[i div 8 := (b ! (i div 8)) OR push_bit (i mod 8) 1])
      else Inl Undefined)"

definition bitset_test :: "bytes \<Rightarrow> nat \<Rightarrow> bool" where
  "bitset_test b i = (i div 8 < length b \<and> bit (b ! (i div 8)) (i mod 8))"

section \<open>MessagePack writer and reader\<close>

text \<open>
  Modelled from the spec: the MessagePack writer and reader are declared outside
  \<open>table_impl.cpp\<close>. A stream is the sequence of objects written to it; the writer appends an
  object, the reader consumes the next one and fails with \<open>Protocol\<close> on an unexpected
  tag, a short read or an integer that does not fit. A binary blob holds a binary tuple. \<open>read_map_size\<close> looks at the
  map ahead without consuming it; \<open>read_map_raw\<close> hands over its entries and consumes it.
\<close>

datatype msgpack_object =
  Msg_nil
  | Msg_bool bool
  | Msg_int32 int
  | Msg_uuid "128 word"
  | Msg_bitset bytes
  | Msg_binary binary_tuple
  | Msg_map "(msgpack_object \<times> msgpack_object) list"

type_synonym msgpack_object_kv = "msgpack_object \<times> msgpack_object"
type_synonym writer = "msgpack_object list"
type_synonym reader = "msgpack_object list"

definition write_uuid :: "writer \<Rightarrow> 128 word \<Rightarrow> writer" where
  "write_uuid w u = w @ [Msg_uuid u]"

definition write_nil :: "writer \<Rightarrow> writer" where
  "write_nil w = w @ [Msg_nil]"

definition write_int32 :: "writer \<Rightarrow> int \<Rightarrow> writer" where
  "write_int32 w i = w @ [Msg_int32 i]"

definition write_bitset :: "writer \<Rightarrow> bytes \<Rightarrow> writer" where
  "write_bitset w b = w @ [Msg_bitset b]"

definition write_binary :: "writer \<Rightarrow> binary_tuple \<Rightarrow> writer" where
  "write_binary w d = w @ [Msg_binary d]"

definition read_int32 :: "reader \<Rightarrow> error + (int \<times> reader)" where
  "read_int32 r =
     (case r of
        Msg_int32 i # r' \<Rightarrow>
          (if - (2 ^ 31) \<le> i \<and> i < 2 ^ 31 then Inr (i, r') else Inl Protocol)
      | _ \<Rightarrow> Inl Protocol)"

definition read_bool :: "reader \<Rightarrow> error + (bool \<times> reader)" where
  "read_bool r = (case r of Msg_bool b # r' \<Rightarrow> Inr (b, r') | _ \<Rightarrow> Inl Protocol)"

definition read_binary :: "reader \<Rightarrow> error + (binary_tuple \<times> reader)" where
  "read_binary r = (case r of Msg_binary d # r' \<Rightarrow> Inr (d, r') | _ \<Rightarrow> Inl Protocol)"

definition read_map_size :: "reader \<Rightarrow> error + nat" where
  "read_map_size r = (case r of Msg_map kvs # r' \<Rightarrow> Inr (length kvs) | _ \<Rightarrow> Inl Protocol)"

definition read_map_raw :: "reader \<Rightarrow> error + (msgpack_object_kv list \<times> reader)" where
  "read_map_raw r = (case r of Msg_map kvs # r' \<Rightarrow> Inr (kvs, r') | _ \<Rightarrow> Inl Protocol)"

section \<open>Tuple codec\<close>

text \<open>\<open>claim_column\<close>: claim space for the column, by its type.\<close>

definition claim_column ::
  "binary_tuple_builder \<Rightarrow> ignite_type \<Rightarrow> int \<Rightarrow> ignite_tuple \<Rightarrow> error + binary_tuple_builder" where
  "claim_column builder typ index tuple =
     (case typ of
        INT8 \<Rightarrow> (case get_int8 tuple index of Inl e \<Rightarrow> Inl e | Inr v \<Rightarrow> Inr (claim_int8 builder v))
      | INT16 \<Rightarrow> (case get_int16 tuple index of Inl e \<Rightarrow> Inl e | Inr v \<Rightarrow> Inr (claim_int16 builder v))
      | INT32 \<Rightarrow> (case get_int32 tuple index of Inl e \<Rightarrow> Inl e | Inr v \<Rightarrow> Inr (claim_int32 builder v))
      | INT64 \<Rightarrow> (case get_int64 tuple index of Inl e \<Rightarrow> Inl e | Inr v \<Rightarrow> Inr (claim_int64 builder v))
      | FLOAT \<Rightarrow> (case get_float tuple index of Inl e \<Rightarrow> Inl e | Inr v \<Rightarrow> Inr (claim_float builder v))
      | DOUBLE \<Rightarrow> (case get_double tuple index of Inl e \<Rightarrow> Inl e | Inr v \<Rightarrow> Inr (claim_double builder v))
      | UUID \<Rightarrow> (case get_uuid tuple index of Inl e \<Rightarrow> Inl e | Inr v \<Rightarrow> Inr (claim_uuid builder v))
      | STRING \<Rightarrow>
          (case get_string tuple index of Inl e \<Rightarrow> Inl e
           | Inr str \<Rightarrow> Inr (claim builder (Some (length str))))
      | BINARY \<Rightarrow>
          (case get_bytes tuple index of Inl e \<Rightarrow> Inl e
           | Inr bs \<Rightarrow> Inr (claim builder (Some (length bs))))
      | OTHER n \<Rightarrow> Inl (type_not_supported n))"

text \<open>\<open>append_column\<close>: append the value of the column to the binary tuple.\<close>

definition append_column ::
  "binary_tuple_builder \<Rightarrow> ignite_type \<Rightarrow> int \<Rightarrow> ignite_tuple \<Rightarrow> error + binary_tuple_builder" where
  "append_column builder typ index tuple =
     (case typ of
        INT8 \<Rightarrow> (case get_int8 tuple index of Inl e \<Rightarrow> Inl e | Inr v \<Rightarrow> Inr (append_int8 builder v))
      | INT16 \<Rightarrow> (case get_int16 tuple index of Inl e \<Rightarrow> Inl e | Inr v \<Rightarrow> Inr (append_int16 builder v))
      | INT32 \<Rightarrow> (case get_int32 tuple index of Inl e \<Rightarrow> Inl e | Inr v \<Rightarrow> Inr (append_int32 builder v))
      | INT64 \<Rightarrow> (case get_int64 tuple index of Inl e \<Rightarrow> Inl e | Inr v \<Rightarrow> Inr (append_int64 builder v))
      | FLOAT \<Rightarrow> (case get_float tuple index of Inl e \<Rightarrow> Inl e | Inr v \<Rightarrow> Inr (append_float builder v))
      | DOUBLE \<Rightarrow> (case get_double tuple index of Inl e \<Rightarrow> Inl e | Inr v \<Rightarrow> Inr (append_double builder v))
      | UUID \<Rightarrow> (case get_uuid tuple index of Inl e \<Rightarrow> Inl e | Inr v \<Rightarrow> Inr (append_uuid builder v))
      | STRING \<Rightarrow>
          (case get_string tuple index of Inl e \<Rightarrow> Inl e
           | Inr str \<Rightarrow> Inr (append_typed builder typ (map byte_of_char str)))
      | BINARY \<Rightarrow>
          (case get_bytes tuple index of Inl e \<Rightarrow> Inl e
           | Inr bs \<Rightarrow> Inr (append_typed builder typ bs))
      | OTHER n \<Rightarrow> Inl (type_not_supported n))"

text \<open>\<open>read_next_column\<close>: read the value of the next column from the binary tuple.\<close>

definition read_next_column ::
  "binary_tuple_parser \<Rightarrow> ignite_type \<Rightarrow> error + (std_any \<times> binary_tuple_parser)" where
  "read_next_column parser typ =
     (case get_next parser of
        Inl e \<Rightarrow> Inl e
      | Inr (val_opt, parser') \<Rightarrow>
          (case val_opt of
             None \<Rightarrow> Inr (Empty, parser')
           | Some val \<Rightarrow>
               (case typ of
                  INT8 \<Rightarrow> Inr (Int8 (parser_get_int8 val), parser')
                | INT16 \<Rightarrow> Inr (Int16 (parser_get_int16 val), parser')
                | INT32 \<Rightarrow> Inr (Int32 (parser_get_int32 val), parser')
                | INT64 \<Rightarrow> Inr (Int64 (parser_get_int64 val), parser')
                | FLOAT \<Rightarrow> Inr (Float (parser_get_float val), parser')
                | DOUBLE \<Rightarrow> Inr (Double (parser_get_double val), parser')
                | UUID \<Rightarrow> Inr (Uuid (parser_get_uuid val), parser')
                | STRING \<Rightarrow> Inr (Str (map char_of_byte val), parser')
                | BINARY \<Rightarrow> Inr (Bin val, parser')
                | OTHER n \<Rightarrow> Inl (type_not_supported n))))"

text \<open>
  \<open>transactions_not_implemented\<close>: check the transaction and throw if it is not null.
  A transaction handle is a pointer; \<open>None\<close> is the null pointer.
\<close>

type_synonym transaction = nat

definition transactions_not_implemented :: "transaction option \<Rightarrow> error + unit" where
  "transactions_not_implemented tx =
     (case tx of
        Some t \<Rightarrow> Inl (ignite_error ''Transactions are not implemented'')
      | None \<Rightarrow> Inr ())"

text \<open>\<open>pack_tuple\<close>: its first loop claims the space of every field.\<close>

function pack_tuple_claim ::
  "schema \<Rightarrow> ignite_tuple \<Rightarrow> int \<Rightarrow> int \<Rightarrow> binary_tuple_builder \<Rightarrow> error + binary_tuple_builder" where
  "pack_tuple_claim sch tuple count i builder =
     (if i < count then
        (case column_at sch i of
           Inl e \<Rightarrow> Inl e
         | Inr col \<Rightarrow>
             (let col_idx = column_ordinal tuple (name col) in
              (case (if col_idx \<ge> 0 then claim_column builder (type col) col_idx tuple
                     else Inr (claim builder None)) of
                 Inl e \<Rightarrow> Inl e
               | Inr builder' \<Rightarrow> pack_tuple_claim sch tuple count (i + 1) builder')))
      else Inr builder)"
  by pat_completeness auto
termination
  by (relation "measure (\<lambda>(sch, tuple, count, i, builder). nat (count - i))") auto

text \<open>Its second loop appends every field and marks the absent ones in the bitset.\<close>

function pack_tuple_append ::
  "schema \<Rightarrow> ignite_tuple \<Rightarrow> int \<Rightarrow> int \<Rightarrow> binary_tuple_builder \<times> bytes
     \<Rightarrow> error + (binary_tuple_builder \<times> bytes)" where
  "pack_tuple_append sch tuple count i (builder, no_value) =
     (if i < count then
        (case column_at sch i of
           Inl e \<Rightarrow> Inl e
         | Inr col \<Rightarrow>
             (let col_idx = column_ordinal tuple (name col) in
              (case (if col_idx \<ge> 0 then
                       (case append_column builder (type col) col_idx tuple of
                          Inl e \<Rightarrow> Inl e
                        | Inr builder' \<Rightarrow> Inr (builder', no_value))
                     else
                       (case bitset_set no_value (size_t i) of
                          Inl e \<Rightarrow> Inl e
                        | Inr no_value' \<Rightarrow> Inr (append_field builder None, no_value'))) of
                 Inl e \<Rightarrow> Inl e
               | Inr st \<Rightarrow> pack_tuple_append sch tuple count (i + 1) st)))
      else Inr (builder, no_value))"
  by pat_completeness auto
termination
  by (relation "measure (\<lambda>(sch, tuple, count, i, st). nat (count - i))") auto

text \<open>
  \<open>pack_tuple\<close>: serialize the tuple using the schema. The bitset is the caller's; the
  function gives back the bytes of the tuple and the bitset as it leaves it.
\<close>

definition pack_tuple ::
  "schema \<Rightarrow> ignite_tuple \<Rightarrow> bool \<Rightarrow> bytes \<Rightarrow> error + (binary_tuple \<times> bytes)" where
  "pack_tuple sch tuple key_only no_value =
     (let count = int32_t (if key_only then int (size_t (key_column_count sch))
                           else int (length (columns sch)));
          builder = start (binary_tuple_builder count)
      in
        (case pack_tuple_claim sch tuple count 0 builder of
           Inl e \<Rightarrow> Inl e
         | Inr builder1 \<Rightarrow>
             (case pack_tuple_append sch tuple count 0 (layout builder1, no_value) of
                Inl e \<Rightarrow> Inl e
              | Inr (builder2, no_value') \<Rightarrow> Inr (build builder2, no_value'))))"

text \<open>\<open>write_tuple\<close>: the bitset, then the bytes of the tuple.\<close>

definition write_tuple :: "writer \<Rightarrow> schema \<Rightarrow> ignite_tuple \<Rightarrow> bool \<Rightarrow> error + writer" where
  "write_tuple writer sch tuple key_only =
     (let count = (if key_only then size_t (key_column_count sch) else length (columns sch));
          bytes_num = bytes_for_bits count;
          no_value = bitset_span bytes_num
      in
        (case pack_tuple sch tuple key_only no_value of
           Inl e \<Rightarrow> Inl e
         | Inr (tuple_data, no_value') \<Rightarrow>
             Inr (write_binary (write_bitset writer no_value') tuple_data)))"

fun write_tuples_loop :: "writer \<Rightarrow> schema \<Rightarrow> ignite_tuple list \<Rightarrow> bool \<Rightarrow> error + writer" where
  "write_tuples_loop writer sch [] key_only = Inr writer"
| "write_tuples_loop writer sch (tuple # tuples) key_only =
     (case write_tuple writer sch tuple key_only of
        Inl e \<Rightarrow> Inl e
      | Inr writer' \<Rightarrow> write_tuples_loop writer' sch tuples key_only)"

definition write_tuples :: "writer \<Rightarrow> schema \<Rightarrow> ignite_tuple list \<Rightarrow> bool \<Rightarrow> error + writer" where
  "write_tuples writer sch tuples key_only =
     write_tuples_loop (write_int32 writer (int32_t (int (length tuples)))) sch tuples key_only"

definition write_table_operation_header :: "writer \<Rightarrow> 128 word \<Rightarrow> schema \<Rightarrow> writer" where
  "write_table_operation_header writer table_id sch =
     write_int32 (write_nil (write_uuid writer table_id)) (version sch)"

text \<open>
  \<open>read_tuple(reader, sch, key)\<close>: the key columns come from the key record, the others
  from the parser.
\<close>

function read_tuple_key_loop ::
  "schema \<Rightarrow> ignite_tuple \<Rightarrow> int \<Rightarrow> int \<Rightarrow> binary_tuple_parser \<times> ignite_tuple
     \<Rightarrow> error + (binary_tuple_parser \<times> ignite_tuple)" where
  "read_tuple_key_loop sch key columns_cnt i (parser, res) =
     (if i < columns_cnt then
        (case column_at sch i of
           Inl e \<Rightarrow> Inl e
         | Inr column \<Rightarrow>
             (case (if i < key_column_count sch then
                      (case get_name key (name column) of
                         Inl e \<Rightarrow> Inl e
                       | Inr v \<Rightarrow> Inr (parser, set_name res (name column) v))
                    else
                      (case read_next_column parser (type column) of
                         Inl e \<Rightarrow> Inl e
                       | Inr (v, parser') \<Rightarrow> Inr (parser', set_name res (name column) v))) of
                Inl e \<Rightarrow> Inl e
              | Inr st \<Rightarrow> read_tuple_key_loop sch key columns_cnt (i + 1) st))
      else Inr (parser, res))"
  by pat_completeness auto
termination
  by (relation "measure (\<lambda>(sch, key, columns_cnt, i, st). nat (columns_cnt - i))") auto

definition read_tuple_key :: "reader \<Rightarrow> schema \<Rightarrow> ignite_tuple \<Rightarrow> error + (ignite_tuple \<times> reader)" where
  "read_tuple_key reader sch key =
     (case read_binary reader of
        Inl e \<Rightarrow> Inl e
      | Inr (tuple_data, reader') \<Rightarrow>
          (let columns_cnt = int32_t (int (length (columns sch)));
               res = ignite_tuple columns_cnt
           in
             (case binary_tuple_parser (columns_cnt - key_column_count sch) tuple_data of
                Inl e \<Rightarrow> Inl e
              | Inr parser \<Rightarrow>
                  (case read_tuple_key_loop sch key columns_cnt 0 (parser, res) of
                     Inl e \<Rightarrow> Inl e
                   | Inr (parser', res') \<Rightarrow> Inr (res', reader')))))"

text \<open>\<open>read_tuple(reader, sch, key_only)\<close>: every column read comes from the parser.\<close>

function read_tuple_loop ::
  "schema \<Rightarrow> int \<Rightarrow> int \<Rightarrow> binary_tuple_parser \<times> ignite_tuple
     \<Rightarrow> error + (binary_tuple_parser \<times> ignite_tuple)" where
  "read_tuple_loop sch columns_cnt i (parser, res) =
     (if i < columns_cnt then
        (case column_at sch i of
           Inl e \<Rightarrow> Inl e
         | Inr column \<Rightarrow>
             (case read_next_column parser (type column) of
                Inl e \<Rightarrow> Inl e
              | Inr (v, parser') \<Rightarrow>
                  read_tuple_loop sch columns_cnt (i + 1) (parser', set_name res (name column) v)))
      else Inr (parser, res))"
  by pat_completeness auto
termination
  by (relation "measure (\<lambda>(sch, columns_cnt, i, st). nat (columns_cnt - i))") auto

definition read_tuple :: "reader \<Rightarrow> schema \<Rightarrow> bool \<Rightarrow> error + (ignite_tuple \<times> reader)" where
  "read_tuple reader sch key_only =
     (case read_binary reader of
        Inl e \<Rightarrow> Inl e
      | Inr (tuple_data, reader') \<Rightarrow>
          (let columns_cnt = int32_t (if key_only then int (size_t (key_column_count sch))
                                      else int (length (columns sch)));
               res = ignite_tuple columns_cnt
           in
             (case binary_tuple_parser columns_cnt tuple_data of
                Inl e \<Rightarrow> Inl e
              | Inr parser \<Rightarrow>
                  (case read_tuple_loop sch columns_cnt 0 (parser, res) of
                     Inl e \<Rightarrow> Inl e
                   | Inr (parser', res') \<Rightarrow> Inr (res', reader')))))"

text \<open>
  \<open>res.reserve(std::size_t(count))\<close>: a negative count converts to a size beyond what a
  vector can hold (its \<open>max_size()\<close> is below \<open>2 ^ 63\<close>), and \<open>reserve\<close> throws.
\<close>

definition reserve :: "nat \<Rightarrow> error + unit" where
  "reserve n = (if int n < 2 ^ 63 then Inr () else Inl length_error)"

text \<open>\<open>read_tuples_opt\<close>: every entry follows a flag that says whether it exists.\<close>

function read_tuples_opt_loop ::
  "schema \<Rightarrow> bool \<Rightarrow> int \<Rightarrow> int \<Rightarrow> reader \<times> ignite_tuple option list
     \<Rightarrow> error + (ignite_tuple option list \<times> reader)" where
  "read_tuples_opt_loop sch key_only count i (reader, res) =
     (if i < count then
        (case read_bool reader of
           Inl e \<Rightarrow> Inl e
         | Inr (exists, reader1) \<Rightarrow>
             (if \<not> exists then
                read_tuples_opt_loop sch key_only count (i + 1) (reader1, res @ [None])
              else
                (case read_tuple reader1 sch key_only of
                   Inl e \<Rightarrow> Inl e
                 | Inr (t, reader2) \<Rightarrow>
                     read_tuples_opt_loop sch key_only count (i + 1) (reader2, res @ [Some t]))))
      else Inr (res, reader))"
  by pat_completeness auto
termination
  by (relation "measure (\<lambda>(sch, key_only, count, i, st). nat (count - i))") auto

definition read_tuples_opt ::
  "reader \<Rightarrow> schema option \<Rightarrow> bool \<Rightarrow> error + (ignite_tuple option list \<times> reader)" where
  "read_tuples_opt reader sch key_only =
     (case sch of
        None \<Rightarrow> Inr ([], reader)
      | Some s \<Rightarrow>
          (case read_int32 reader of
             Inl e \<Rightarrow> Inl e
           | Inr (count, reader') \<Rightarrow>
               (case reserve (size_t count) of
                  Inl e \<Rightarrow> Inl e
                | Inr u \<Rightarrow> read_tuples_opt_loop s key_only count 0 (reader', []))))"

text \<open>\<open>read_tuples\<close>: every entry is a tuple.\<close>

function read_tuples_loop ::
  "schema \<Rightarrow> bool \<Rightarrow> int \<Rightarrow> int \<Rightarrow> reader \<times> ignite_tuple list
     \<Rightarrow> error + (ignite_tuple list \<times> reader)" where
  "read_tuples_loop sch key_only count i (reader, res) =
     (if i < count then
        (case read_tuple reader sch key_only of
           Inl e \<Rightarrow> Inl e
         | Inr (t, reader') \<Rightarrow> read_tuples_loop sch key_only count (i + 1) (reader', res @ [t]))
      else Inr (res, reader))"
  by pat_completeness auto
termination
  by (relation "measure (\<lambda>(sch, key_only, count, i, st). nat (count - i))") auto

definition read_tuples ::
  "reader \<Rightarrow> schema option \<Rightarrow> bool \<Rightarrow> error + (ignite_tuple list \<times> reader)" where
  "read_tuples reader sch key_only =
     (case sch of
        None \<Rightarrow> Inr ([], reader)
      | Some s \<Rightarrow>
          (case read_int32 reader of
             Inl e \<Rightarrow> Inl e
           | Inr (count, reader') \<Rightarrow>
               (case reserve (size_t count) of
                  Inl e \<Rightarrow> Inl e
                | Inr u \<Rightarrow> read_tuples_loop s key_only count 0 (reader', []))))"

section \<open>Table handle, schema cache and connection\<close>

text \<open>
  Modelled from the spec: the class \<open>table_impl\<close>, the cluster connection and the
  enumeration of the operation codes are declared outside \<open>table_impl.cpp\<close>. The
  table holds its id, the map from version to schema with the latest version (\<open>-1\<close>
  at first), and the connection, of which the requests it has sent are kept, in order.
  \<open>m_schemas[v]\<close> on a \<open>std::unordered_map\<close> inserts a null pointer for a missing key.
\<close>

datatype client_operation =
  SCHEMAS_GET | TUPLE_GET | TUPLE_GET_ALL | TUPLE_UPSERT | TUPLE_UPSERT_ALL
  | TUPLE_GET_AND_UPSERT | TUPLE_INSERT | TUPLE_INSERT_ALL | TUPLE_REPLACE
  | TUPLE_REPLACE_EXACT | TUPLE_GET_AND_REPLACE | TUPLE_DELETE | TUPLE_DELETE_EXACT
  | TUPLE_GET_AND_DELETE | TUPLE_DELETE_ALL | TUPLE_DELETE_ALL_EXACT

record table_impl =
  m_id :: "128 word"
  m_schemas :: "int \<rightharpoonup> schema option"
  m_latest_schema_version :: int
  m_connection :: "(client_operation \<times> writer) list"

definition schemas_at :: "table_impl \<Rightarrow> int \<Rightarrow> schema option \<times> table_impl" where
  "schemas_at self v =
     (case m_schemas self v of
        Some p \<Rightarrow> (p, self)
      | None \<Rightarrow> (None, self\<lparr>m_schemas := (m_schemas self)(v \<mapsto> None)\<rparr>))"

text \<open>
  Modelled from the spec: \<open>add_schema\<close> is declared outside \<open>table_impl.cpp\<close>. It inserts
  the schema under its version and never lowers the latest version.
\<close>

definition add_schema :: "table_impl \<Rightarrow> schema \<Rightarrow> table_impl" where
  "add_schema self sch =
     self\<lparr>m_schemas := (m_schemas self)(version sch \<mapsto> Some sch),
          m_latest_schema_version := max (m_latest_schema_version self) (version sch)\<rparr>"

text \<open>
  The collaborators whose behaviour \<open>table_impl.cpp\<close> does not fix are parameters: the
  cluster, which answers a request with the body of a response or with a failure;
  \<open>schema::read\<close>, which parses one entry of the schema map; and \<open>get_schema(reader)\<close>,
  which resolves the schema reference that precedes the body of a response (it may
  consume from the reader, change the cache, and yield a null pointer).
\<close>

record collaborators =
  server :: "client_operation \<Rightarrow> writer \<Rightarrow> error + reader"
  schema_read :: "msgpack_object_kv \<Rightarrow> error + schema"
  get_schema :: "table_impl \<Rightarrow> reader \<Rightarrow> (error + (schema option \<times> reader)) \<times> table_impl"

text \<open>
  What an asynchronous operation comes to: an exception thrown to the caller, the
  callback never invoked, or the callback invoked once, with an error or a value.
\<close>

datatype 'a outcome = Thrown error | Delivered "error + 'a"

text \<open>
  Modelled from the spec: \<open>perform_request(op, write_fn, read_fn, cb)\<close> and
  \<open>perform_request_wr(op, write_fn, cb)\<close> of the connection are declared outside
  \<open>table_impl.cpp\<close>. The writer closure fills the request; when it throws nothing is
  sent. The request is sent; a failure of the cluster or of the reader closure goes to
  the callback, and so does the value the reader closure decodes.
\<close>

definition perform_request ::
  "collaborators \<Rightarrow> client_operation \<Rightarrow> (writer \<Rightarrow> error + writer)
     \<Rightarrow> (reader \<Rightarrow> table_impl \<Rightarrow> (error + 'a) \<times> table_impl)
     \<Rightarrow> table_impl \<Rightarrow> 'a outcome \<times> table_impl" where
  "perform_request env op writer_func reader_func self =
     (case writer_func [] of
        Inl e \<Rightarrow> (Thrown e, self)
      | Inr request \<Rightarrow>
          (let self1 = self\<lparr>m_connection := m_connection self @ [(op, request)]\<rparr> in
             (case server env op request of
                Inl e \<Rightarrow> (Delivered (Inl e), self1)
              | Inr response \<Rightarrow>
                  (case reader_func response self1 of
                     (res, self2) \<Rightarrow> (Delivered res, self2)))))"

definition perform_request_wr ::
  "collaborators \<Rightarrow> client_operation \<Rightarrow> (writer \<Rightarrow> error + writer)
     \<Rightarrow> table_impl \<Rightarrow> unit outcome \<times> table_impl" where
  "perform_request_wr env op writer_func self =
     perform_request env op writer_func (\<lambda>reader table. (Inr (), table)) self"

text \<open>\<open>load_schema_async\<close>: the reader closure, over the entries of the schema map.\<close>

fun load_schema_entries ::
  "collaborators \<Rightarrow> msgpack_object_kv list \<Rightarrow> schema option \<times> table_impl
     \<Rightarrow> (error + schema option) \<times> table_impl" where
  "load_schema_entries env [] (last_schema, table) = (Inr last_schema, table)"
| "load_schema_entries env (object # objects) (last_schema, table) =
     (case schema_read env object of
        Inl e \<Rightarrow> (Inl e, table)
      | Inr sch \<Rightarrow> load_schema_entries env objects (Some sch, add_schema table sch))"

definition load_schema_reader_func ::
  "collaborators \<Rightarrow> reader \<Rightarrow> table_impl \<Rightarrow> (error + schema option) \<times> table_impl" where
  "load_schema_reader_func env reader table =
     (case read_map_size reader of
        Inl e \<Rightarrow> (Inl e, table)
      | Inr schema_cnt \<Rightarrow>
          (if schema_cnt = 0 then (Inl (ignite_error ''Schema not found''), table)
           else
             (case read_map_raw reader of
                Inl e \<Rightarrow> (Inl e, table)
              | Inr (objects, reader') \<Rightarrow> load_schema_entries env objects (None, table))))"

definition load_schema_writer_func :: "table_impl \<Rightarrow> writer \<Rightarrow> error + writer" where
  "load_schema_writer_func self writer = Inr (write_nil (write_uuid writer (m_id self)))"

definition load_schema_async ::
  "collaborators \<Rightarrow> table_impl \<Rightarrow> schema option outcome \<times> table_impl" where
  "load_schema_async env self =
     perform_request env SCHEMAS_GET (load_schema_writer_func self) (load_schema_reader_func env) self"

definition get_latest_schema_async ::
  "collaborators \<Rightarrow> table_impl \<Rightarrow> schema option outcome \<times> table_impl" where
  "get_latest_schema_async env self =
     (let latest_schema_version = m_latest_schema_version self in
      if latest_schema_version \<ge> 0 then
        (case schemas_at self latest_schema_version of
           (schema, self') \<Rightarrow> (Delivered (Inr schema), self'))
      else load_schema_async env self)"

text \<open>
  Modelled from the spec: \<open>with_latest_schema_async(final_cb, body)\<close> is declared
  outside \<open>table_impl.cpp\<close>. It asks for the latest schema; on success it calls the body with
  the schema, on failure the callback gets the error. The body takes the schema by
  reference: a null pointer delivered as the latest schema is dereferenced (undefined
  behaviour).
\<close>

definition with_latest_schema_async ::
  "collaborators \<Rightarrow> (schema \<Rightarrow> table_impl \<Rightarrow> 'a outcome \<times> table_impl)
     \<Rightarrow> table_impl \<Rightarrow> 'a outcome \<times> table_impl" where
  "with_latest_schema_async env body self =
     (case get_latest_schema_async env self of
        (Thrown e, self') \<Rightarrow> (Thrown e, self')
      | (Delivered (Inl e), self') \<Rightarrow> (Delivered (Inl e), self')
      | (Delivered (Inr None), self') \<Rightarrow> (Thrown Undefined, self')
      | (Delivered (Inr (Some sch)), self') \<Rightarrow> body sch self')"

section \<open>Reader closures of the operations\<close>

text \<open>
  The reader closure of \<open>get\<close>, \<open>get_and_upsert\<close>, \<open>get_and_replace\<close> and
  \<open>get_and_remove\<close>: resolve the schema, give \<open>nullopt\<close> when it is null, else read a
  tuple and merge the captured record into it as the key.
\<close>

definition get_reader_func ::
  "collaborators \<Rightarrow> ignite_tuple \<Rightarrow> reader \<Rightarrow> table_impl
     \<Rightarrow> (error + ignite_tuple option) \<times> table_impl" where
  "get_reader_func env key reader self =
     (case get_schema env self reader of
        (Inl e, self') \<Rightarrow> (Inl e, self')
      | (Inr (sch, reader'), self') \<Rightarrow>
          (case sch of
             None \<Rightarrow> (Inr None, self')
           | Some s \<Rightarrow>
               (case read_tuple_key reader' s key of
                  Inl e \<Rightarrow> (Inl e, self')
                | Inr (t, reader'') \<Rightarrow> (Inr (Some t), self'))))"

definition get_and_upsert_reader_func ::
  "collaborators \<Rightarrow> ignite_tuple \<Rightarrow> reader \<Rightarrow> table_impl
     \<Rightarrow> (error + ignite_tuple option) \<times> table_impl" where
  "get_and_upsert_reader_func env record reader self =
     (case get_schema env self reader of
        (Inl e, self') \<Rightarrow> (Inl e, self')
      | (Inr (sch, reader'), self') \<Rightarrow>
          (case sch of
             None \<Rightarrow> (Inr None, self')
           | Some s \<Rightarrow>
               (case read_tuple_key reader' s record of
                  Inl e \<Rightarrow> (Inl e, self')
                | Inr (t, reader'') \<Rightarrow> (Inr (Some t), self'))))"

definition get_and_replace_reader_func ::
  "collaborators \<Rightarrow> ignite_tuple \<Rightarrow> reader \<Rightarrow> table_impl
     \<Rightarrow> (error + ignite_tuple option) \<times> table_impl" where
  "get_and_replace_reader_func env record reader self =
     (case get_schema env self reader of
        (Inl e, self') \<Rightarrow> (Inl e, self')
      | (Inr (sch, reader'), self') \<Rightarrow>
          (case sch of
             None \<Rightarrow> (Inr None, self')
           | Some s \<Rightarrow>
               (case read_tuple_key reader' s record of
                  Inl e \<Rightarrow> (Inl e, self')
                | Inr (t, reader'') \<Rightarrow> (Inr (Some t), self'))))"

definition get_and_remove_reader_func ::
  "collaborators \<Rightarrow> ignite_tuple \<Rightarrow> reader \<Rightarrow> table_impl
     \<Rightarrow> (error + ignite_tuple option) \<times> table_impl" where
  "get_and_remove_reader_func env record reader self =
     (case get_schema env self reader of
        (Inl e, self') \<Rightarrow> (Inl e, self')
      | (Inr (sch, reader'), self') \<Rightarrow>
          (case sch of
             None \<Rightarrow> (Inr None, self')
           | Some s \<Rightarrow>
               (case read_tuple_key reader' s record of
                  Inl e \<Rightarrow> (Inl e, self')
                | Inr (t, reader'') \<Rightarrow> (Inr (Some t), self'))))"

text \<open>The reader closures of the operations on several records.\<close>

definition get_all_reader_func ::
  "collaborators \<Rightarrow> reader \<Rightarrow> table_impl \<Rightarrow> (error + ignite_tuple option list) \<times> table_impl" where
  "get_all_reader_func env reader self =
     (case get_schema env self reader of
        (Inl e, self') \<Rightarrow> (Inl e, self')
      | (Inr (sch, reader'), self') \<Rightarrow>
          (case read_tuples_opt reader' sch False of
             Inl e \<Rightarrow> (Inl e, self')
           | Inr (ts, reader'') \<Rightarrow> (Inr ts, self')))"

definition insert_all_reader_func ::
  "collaborators \<Rightarrow> reader \<Rightarrow> table_impl \<Rightarrow> (error + ignite_tuple list) \<times> table_impl" where
  "insert_all_reader_func env reader self =
     (case get_schema env self reader of
        (Inl e, self') \<Rightarrow> (Inl e, self')
      | (Inr (sch, reader'), self') \<Rightarrow>
          (case read_tuples reader' sch False of
             Inl e \<Rightarrow> (Inl e, self')
           | Inr (ts, reader'') \<Rightarrow> (Inr ts, self')))"

definition remove_all_reader_func ::
  "collaborators \<Rightarrow> reader \<Rightarrow> table_impl \<Rightarrow> (error + ignite_tuple list) \<times> table_impl" where
  "remove_all_reader_func env reader self =
     (case get_schema env self reader of
        (Inl e, self') \<Rightarrow> (Inl e, self')
      | (Inr (sch, reader'), self') \<Rightarrow>
          (case read_tuples reader' sch True of
             Inl e \<Rightarrow> (Inl e, self')
           | Inr (ts, reader'') \<Rightarrow> (Inr ts, self')))"

definition remove_all_exact_reader_func ::
  "collaborators \<Rightarrow> reader \<Rightarrow> table_impl \<Rightarrow> (error + ignite_tuple list) \<times> table_impl" where
  "remove_all_exact_reader_func env reader self =
     (case get_schema env self reader of
        (Inl e, self') \<Rightarrow> (Inl e, self')
      | (Inr (sch, reader'), self') \<Rightarrow>
          (case read_tuples reader' sch False of
             Inl e \<Rightarrow> (Inl e, self')
           | Inr (ts, reader'') \<Rightarrow> (Inr ts, self')))"

text \<open>
  The reader closure of \<open>insert\<close>, \<open>replace\<close>, \<open>replace_exact\<close>, \<open>remove\<close> and
  \<open>remove_exact\<close>: one boolean.
\<close>

definition bool_reader_func :: "reader \<Rightarrow> table_impl \<Rightarrow> (error + bool) \<times> table_impl" where
  "bool_reader_func reader self =
     (case read_bool reader of
        Inl e \<Rightarrow> (Inl e, self)
      | Inr (b, reader') \<Rightarrow> (Inr b, self))"

section \<open>The public operations\<close>

definition get_async ::
  "collaborators \<Rightarrow> transaction option \<Rightarrow> ignite_tuple \<Rightarrow> table_impl
     \<Rightarrow> ignite_tuple option outcome \<times> table_impl" where
  "get_async env tx key self =
     (case transactions_not_implemented tx of
        Inl e \<Rightarrow> (Thrown e, self)
      | Inr u \<Rightarrow>
          with_latest_schema_async env
            (\<lambda>sch self.
               perform_request env TUPLE_GET
                 (\<lambda>writer.
                    write_tuple (write_table_operation_header writer (m_id self) sch) sch key True)
                 (get_reader_func env key) self)
            self)"

definition get_all_async ::
  "collaborators \<Rightarrow> transaction option \<Rightarrow> ignite_tuple list \<Rightarrow> table_impl
     \<Rightarrow> ignite_tuple option list outcome \<times> table_impl" where
  "get_all_async env tx keys self =
     (case transactions_not_implemented tx of
        Inl e \<Rightarrow> (Thrown e, self)
      | Inr u \<Rightarrow>
          with_latest_schema_async env
            (\<lambda>sch self.
               perform_request env TUPLE_GET_ALL
                 (\<lambda>writer.
                    write_tuples (write_table_operation_header writer (m_id self) sch) sch keys True)
                 (get_all_reader_func env) self)
            self)"

definition upsert_async ::
  "collaborators \<Rightarrow> transaction option \<Rightarrow> ignite_tuple \<Rightarrow> table_impl
     \<Rightarrow> unit outcome \<times> table_impl" where
  "upsert_async env tx record self =
     (case transactions_not_implemented tx of
        Inl e \<Rightarrow> (Thrown e, self)
      | Inr u \<Rightarrow>
          with_latest_schema_async env
            (\<lambda>sch self.
               perform_request_wr env TUPLE_UPSERT
                 (\<lambda>writer.
                    write_tuple (write_table_operation_header writer (m_id self) sch) sch record False)
                 self)
            self)"

definition upsert_all_async ::
  "collaborators \<Rightarrow> transaction option \<Rightarrow> ignite_tuple list \<Rightarrow> table_impl
     \<Rightarrow> unit outcome \<times> table_impl" where
  "upsert_all_async env tx records self =
     (case transactions_not_implemented tx of
        Inl e \<Rightarrow> (Thrown e, self)
      | Inr u \<Rightarrow>
          with_latest_schema_async env
            (\<lambda>sch self.
               perform_request_wr env TUPLE_UPSERT_ALL
                 (\<lambda>writer.
                    write_tuples (write_table_operation_header writer (m_id self) sch) sch records False)
                 self)
            self)"

definition get_and_upsert_async ::
  "collaborators \<Rightarrow> transaction option \<Rightarrow> ignite_tuple \<Rightarrow> table_impl
     \<Rightarrow> ignite_tuple option outcome \<times> table_impl" where
  "get_and_upsert_async env tx record self =
     (case transactions_not_implemented tx of
        Inl e \<Rightarrow> (Thrown e, self)
      | Inr u \<Rightarrow>
          with_latest_schema_async env
            (\<lambda>sch self.
               perform_request env TUPLE_GET_AND_UPSERT
                 (\<lambda>writer.
                    write_tuple (write_table_operation_header writer (m_id self) sch) sch record False)
                 (get_and_upsert_reader_func env record) self)
            self)"

definition insert_async ::
  "collaborators \<Rightarrow> transaction option \<Rightarrow> ignite_tuple \<Rightarrow> table_impl
     \<Rightarrow> bool outcome \<times> table_impl" where
  "insert_async env tx record self =
     (case transactions_not_implemented tx of
        Inl e \<Rightarrow> (Thrown e, self)
      | Inr u \<Rightarrow>
          with_latest_schema_async env
            (\<lambda>sch self.
               perform_request env TUPLE_INSERT
                 (\<lambda>writer.
                    write_tuple (write_table_operation_header writer (m_id self) sch) sch record False)
                 bool_reader_func self)
            self)"

definition insert_all_async ::
  "collaborators \<Rightarrow> transaction option \<Rightarrow> ignite_tuple list \<Rightarrow> table_impl
     \<Rightarrow> ignite_tuple list outcome \<times> table_impl" where
  "insert_all_async env tx records self =
     (case transactions_not_implemented tx of
        Inl e \<Rightarrow> (Thrown e, self)
      | Inr u \<Rightarrow>
          with_latest_schema_async env
            (\<lambda>sch self.
               perform_request env TUPLE_INSERT_ALL
                 (\<lambda>writer.
                    write_tuples (write_table_operation_header writer (m_id self) sch) sch records False)
                 (insert_all_reader_func env) self)
            self)"

definition replace_async ::
  "collaborators \<Rightarrow> transaction option \<Rightarrow> ignite_tuple \<Rightarrow> table_impl
     \<Rightarrow> bool outcome \<times> table_impl" where
  "replace_async env tx record self =
     (case transactions_not_implemented tx of
        Inl e \<Rightarrow> (Thrown e, self)
      | Inr u \<Rightarrow>
          with_latest_schema_async env
            (\<lambda>sch self.
               perform_request env TUPLE_REPLACE
                 (\<lambda>writer.
                    write_tuple (write_table_operation_header writer (m_id self) sch) sch record False)
                 bool_reader_func self)
            self)"

definition replace_exact_async ::
  "collaborators \<Rightarrow> transaction option \<Rightarrow> ignite_tuple \<Rightarrow> ignite_tuple \<Rightarrow> table_impl
     \<Rightarrow> bool outcome \<times> table_impl" where
  "replace_exact_async env tx record new_record self =
     (case transactions_not_implemented tx of
        Inl e \<Rightarrow> (Thrown e, self)
      | Inr u \<Rightarrow>
          with_latest_schema_async env
            (\<lambda>sch self.
               perform_request env TUPLE_REPLACE_EXACT
                 (\<lambda>writer.
                    (case write_tuple (write_table_operation_header writer (m_id self) sch)
                            sch record False of
                       Inl e \<Rightarrow> Inl e
                     | Inr writer' \<Rightarrow> write_tuple writer' sch new_record False))
                 bool_reader_func self)
            self)"

definition get_and_replace_async ::
  "collaborators \<Rightarrow> transaction option \<Rightarrow> ignite_tuple \<Rightarrow> table_impl
     \<Rightarrow> ignite_tuple option outcome \<times> table_impl" where
  "get_and_replace_async env tx record self =
     (case transactions_not_implemented tx of
        Inl e \<Rightarrow> (Thrown e, self)
      | Inr u \<Rightarrow>
          with_latest_schema_async env
            (\<lambda>sch self.
               perform_request env TUPLE_GET_AND_REPLACE
                 (\<lambda>writer.
                    write_tuple (write_table_operation_header writer (m_id self) sch) sch record False)
                 (get_and_replace_reader_func env record) self)
            self)"

definition remove_async ::
  "collaborators \<Rightarrow> transaction option \<Rightarrow> ignite_tuple \<Rightarrow> table_impl
     \<Rightarrow> bool outcome \<times> table_impl" where
  "remove_async env tx key self =
     (case transactions_not_implemented tx of
        Inl e \<Rightarrow> (Thrown e, self)
      | Inr u \<Rightarrow>
          with_latest_schema_async env
            (\<lambda>sch self.
               perform_request env TUPLE_DELETE
                 (\<lambda>writer.
                    write_tuple (write_table_operation_header writer (m_id self) sch) sch key True)
                 bool_reader_func self)
            self)"

definition remove_exact_async ::
  "collaborators \<Rightarrow> transaction option \<Rightarrow> ignite_tuple \<Rightarrow> table_impl
     \<Rightarrow> bool outcome \<times> table_impl" where
  "remove_exact_async env tx record self =
     (case transactions_not_implemented tx of
        Inl e \<Rightarrow> (Thrown e, self)
      | Inr u \<Rightarrow>
          with_latest_schema_async env
            (\<lambda>sch self.
               perform_request env TUPLE_DELETE_EXACT
                 (\<lambda>writer.
                    write_tuple (write_table_operation_header writer (m_id self) sch) sch record False)
                 bool_reader_func self)
            self)"

definition get_and_remove_async ::
  "collaborators \<Rightarrow> transaction option \<Rightarrow> ignite_tuple \<Rightarrow> table_impl
     \<Rightarrow> ignite_tuple option outcome \<times> table_impl" where
  "get_and_remove_async env tx key self =
     (case transactions_not_implemented tx of
        Inl e \<Rightarrow> (Thrown e, self)
      | Inr u \<Rightarrow>
          with_latest_schema_async env
            (\<lambda>sch self.
               perform_request env TUPLE_GET_AND_DELETE
                 (\<lambda>writer.
                    write_tuple (write_table_operation_header writer (m_id self) sch) sch key True)
                 (get_and_remove_reader_func env key) self)
            self)"

definition remove_all_async ::
  "collaborators \<Rightarrow> transaction option \<Rightarrow> ignite_tuple list \<Rightarrow> table_impl
     \<Rightarrow> ignite_tuple list outcome \<times> table_impl" where
  "remove_all_async env tx keys self =
     (case transactions_not_implemented tx of
        Inl e \<Rightarrow> (Thrown e, self)
      | Inr u \<Rightarrow>
          with_latest_schema_async env
            (\<lambda>sch self.
               perform_request env TUPLE_DELETE_ALL
                 (\<lambda>writer.
                    write_tuples (write_table_operation_header writer (m_id self) sch) sch keys True)
                 (remove_all_reader_func env) self)
            self)"

definition remove_all_exact_async ::
  "collaborators \<Rightarrow> transaction option \<Rightarrow> ignite_tuple list \<Rightarrow> table_impl
     \<Rightarrow> ignite_tuple list outcome \<times> table_impl" where
  "remove_all_exact_async env tx records self =
     (case transactions_not_implemented tx of
        Inl e \<Rightarrow> (Thrown e, self)
      | Inr u \<Rightarrow>
          with_latest_schema_async env
            (\<lambda>sch self.
               perform_request env TUPLE_DELETE_ALL_EXACT
                 (\<lambda>writer.
                    write_tuples (write_table_operation_header writer (m_id self) sch) sch records False)
                 (remove_all_exact_reader_func env) self)
            self)"

section \<open>A table, a schema and a cluster to run the operations on\<close>

text \<open>
  The schema of the scenarios of the spec: version 1, one key column \<open>id\<close> of type
  INT64 and one value column \<open>name\<close> of type STRING.
\<close>

definition s1_schema :: schema where
  "s1_schema =
     \<lparr>version = 1, key_column_count = 1,
      columns = [\<lparr>name = ''id'', type = INT64, nullable = False, is_key = True\<rparr>,
                 \<lparr>name = ''name'', type = STRING, nullable = True, is_key = False\<rparr>]\<rparr>"

definition s1_table :: table_impl where
  "s1_table =
     \<lparr>m_id = 7, m_schemas = [1 \<mapsto> Some s1_schema], m_latest_schema_version = 1,
      m_connection = []\<rparr>"

definition empty_table :: table_impl where
  "empty_table =
     \<lparr>m_id = 7, m_schemas = Map.empty, m_latest_schema_version = - 1, m_connection = []\<rparr>"

text \<open>
  A cluster that answers every request with the given body, reads a schema map entry
  as \<open>s1_schema\<close> at the version of its key, and resolves the schema reference of a
  response from a leading version number (nil: null pointer).
\<close>

definition mock_schema_read :: "msgpack_object_kv \<Rightarrow> error + schema" where
  "mock_schema_read kv =
     (case fst kv of Msg_int32 v \<Rightarrow> Inr (s1_schema\<lparr>version := v\<rparr>) | _ \<Rightarrow> Inl Protocol)"

definition mock_get_schema ::
  "table_impl \<Rightarrow> reader \<Rightarrow> (error + (schema option \<times> reader)) \<times> table_impl" where
  "mock_get_schema self reader =
     (case reader of
        Msg_nil # reader' \<Rightarrow> (Inr (None, reader'), self)
      | Msg_int32 v # reader' \<Rightarrow>
          (Inr ((case m_schemas self v of Some p \<Rightarrow> p | None \<Rightarrow> None), reader'), self)
      | _ \<Rightarrow> (Inl Protocol, self))"

definition mock :: "reader \<Rightarrow> collaborators" where
  "mock response =
     \<lparr>server = (\<lambda>op request. Inr response), schema_read = mock_schema_read,
      get_schema = mock_get_schema\<rparr>"

section \<open>Notions the properties are stated with\<close>

text \<open>
  A schema is well formed when its key columns are a prefix of its columns and the
  number of columns fits the 32-bit counters of the codec; its column names are
  distinct when no two are the same up to case.
\<close>

definition wf_schema :: "schema \<Rightarrow> bool" where
  "wf_schema sch \<longleftrightarrow>
     0 \<le> key_column_count sch \<and> key_column_count sch \<le> int (length (columns sch))
     \<and> length (columns sch) < 2 ^ 31"

definition distinct_names :: "schema \<Rightarrow> bool" where
  "distinct_names sch \<longleftrightarrow> distinct (map (\<lambda>c. parse_name (name c)) (columns sch))"

text \<open>The number of fields of a tuple, by mode: the \<open>count\<close> of the codec.\<close>

definition field_count :: "schema \<Rightarrow> bool \<Rightarrow> nat" where
  "field_count sch key_only =
     (if key_only then nat (key_column_count sch) else length (columns sch))"

fun supported :: "ignite_type \<Rightarrow> bool" where
  "supported (OTHER n) = False"
| "supported typ = True"

text \<open>
  A value matches a column type when it holds the C++ type the codec reads for it;
  \<open>payload\<close> is the field the builder appends for a value, and \<open>column_value\<close> the
  value the reader makes of a field of a column of a supported type.
\<close>

fun value_matches :: "ignite_type \<Rightarrow> std_any \<Rightarrow> bool" where
  "value_matches INT8 v = (case v of Int8 x \<Rightarrow> True | _ \<Rightarrow> False)"
| "value_matches INT16 v = (case v of Int16 x \<Rightarrow> True | _ \<Rightarrow> False)"
| "value_matches INT32 v = (case v of Int32 x \<Rightarrow> True | _ \<Rightarrow> False)"
| "value_matches INT64 v = (case v of Int64 x \<Rightarrow> True | _ \<Rightarrow> False)"
| "value_matches FLOAT v = (case v of Float x \<Rightarrow> True | _ \<Rightarrow> False)"
| "value_matches DOUBLE v = (case v of Double x \<Rightarrow> True | _ \<Rightarrow> False)"
| "value_matches UUID v = (case v of Uuid x \<Rightarrow> True | _ \<Rightarrow> False)"
| "value_matches STRING v = (case v of Str x \<Rightarrow> True | _ \<Rightarrow> False)"
| "value_matches BINARY v = (case v of Bin x \<Rightarrow> True | _ \<Rightarrow> False)"
| "value_matches (OTHER n) v = False"

fun payload :: "std_any \<Rightarrow> bytes" where
  "payload Empty = []"
| "payload (Int8 v) = encode_le 1 v"
| "payload (Int16 v) = encode_le 2 v"
| "payload (Int32 v) = encode_le 4 v"
| "payload (Int64 v) = encode_le 8 v"
| "payload (Float v) = encode_le 4 v"
| "payload (Double v) = encode_le 8 v"
| "payload (Uuid v) = rev (encode_le 16 v)"
| "payload (Str s) = map byte_of_char s"
| "payload (Bin bs) = bs"

fun column_value :: "ignite_type \<Rightarrow> bytes option \<Rightarrow> std_any" where
  "column_value typ None = Empty"
| "column_value INT8 (Some val) = Int8 (parser_get_int8 val)"
| "column_value INT16 (Some val) = Int16 (parser_get_int16 val)"
| "column_value INT32 (Some val) = Int32 (parser_get_int32 val)"
| "column_value INT64 (Some val) = Int64 (parser_get_int64 val)"
| "column_value FLOAT (Some val) = Float (parser_get_float val)"
| "column_value DOUBLE (Some val) = Double (parser_get_double val)"
| "column_value UUID (Some val) = Uuid (parser_get_uuid val)"
| "column_value STRING (Some val) = Str (map char_of_byte val)"
| "column_value BINARY (Some val) = Bin val"
| "column_value (OTHER n) (Some val) = Empty"

text \<open>The value a record holds under a name, the empty value when it has none.\<close>

definition value_or_empty :: "ignite_tuple \<Rightarrow> string \<Rightarrow> std_any" where
  "value_or_empty t n =
     (if column_ordinal t n < 0 then Empty else snd (t ! nat (column_ordinal t n)))"

text \<open>The field \<open>pack_tuple\<close> builds for a column.\<close>

definition field_of :: "ignite_tuple \<Rightarrow> column \<Rightarrow> bytes option" where
  "field_of t c =
     (if column_ordinal t (name c) < 0 then None
      else Some (payload (snd (t ! nat (column_ordinal t (name c))))))"

text \<open>Setting a sequence of names to values, in order, as the readers do column by column.\<close>

fun set_all :: "ignite_tuple \<Rightarrow> (string \<times> std_any) list \<Rightarrow> ignite_tuple" where
  "set_all res [] = res"
| "set_all res ((n, v) # nvs) = set_all (set_name res n v) nvs"

definition read_columns :: "column list \<Rightarrow> bytes option list \<Rightarrow> (string \<times> std_any) list" where
  "read_columns cs fs = map (\<lambda>(c, f). (name c, column_value (type c) f)) (zip cs fs)"

definition key_columns :: "ignite_tuple \<Rightarrow> column list \<Rightarrow> (string \<times> std_any) list" where
  "key_columns key cs = map (\<lambda>c. (name c, value_or_empty key (name c))) cs"

text \<open>A field can be read for a column when it is absent or the type is supported.\<close>

definition readable :: "column \<Rightarrow> bytes option \<Rightarrow> bool" where
  "readable c f \<longleftrightarrow> f = None \<or> supported (type c)"

text \<open>The values of a record match the columns it has a field for.\<close>

definition matches_on :: "ignite_tuple \<Rightarrow> column list \<Rightarrow> bool" where
  "matches_on t cs \<longleftrightarrow>
     (\<forall>c \<in> set cs. 0 \<le> column_ordinal t (name c) \<longrightarrow>
        value_matches (type c) (value_or_empty t (name c)))"

section \<open>Lookup and update of a record\<close>

lemma find_ordinal_range:
  "0 \<le> i \<Longrightarrow> find_ordinal t key i = - 1 \<or> (i \<le> find_ordinal t key i \<and> find_ordinal t key i < i + int (length t))"
  by (induction t key i rule: find_ordinal.induct) auto

lemma find_ordinal_miss:
  "0 \<le> i \<Longrightarrow> find_ordinal t key i < 0 \<longleftrightarrow> (\<forall>p \<in> set t. parse_name (fst p) \<noteq> key)"
  by (induction t key i rule: find_ordinal.induct) auto

lemma find_ordinal_hit:
  "0 \<le> i \<Longrightarrow> 0 \<le> find_ordinal t key i \<Longrightarrow>
     parse_name (fst (t ! nat (find_ordinal t key i - i))) = key"
proof (induction t key i rule: find_ordinal.induct)
  case (1 key i)
  then show ?case by simp
next
  case (2 n v ps key i)
  show ?case
  proof (cases "parse_name n = key")
    case True
    then show ?thesis by simp
  next
    case False
    from 2 False have r: "0 \<le> find_ordinal ps key (i + 1)" by simp
    from 2 have "0 \<le> i + 1" by simp
    from find_ordinal_range[OF this, of ps key] r
    have ge: "i + 1 \<le> find_ordinal ps key (i + 1)" by auto
    have "parse_name (fst (ps ! nat (find_ordinal ps key (i + 1) - (i + 1)))) = key"
      using 2 False r by simp
    moreover have "nat (find_ordinal ps key (i + 1) - i) = Suc (nat (find_ordinal ps key (i + 1) - (i + 1)))"
      using ge by simp
    ultimately show ?thesis using False by simp
  qed
qed

lemma find_ordinal_append:
  "0 \<le> i \<Longrightarrow> find_ordinal (t @ [(n, v)]) key i =
     (if 0 \<le> find_ordinal t key i then find_ordinal t key i
      else if parse_name n = key then i + int (length t) else - 1)"
proof (induction t key i rule: find_ordinal.induct)
  case (1 key i)
  then show ?case by simp
next
  case (2 n' v' ps key i)
  then show ?case by (auto simp: add.assoc)
qed

lemma find_ordinal_update:
  "parse_name (fst (t ! k)) = parse_name n \<Longrightarrow> k < length t \<Longrightarrow>
     find_ordinal (t[k := (n, v)]) key i = find_ordinal t key i"
proof (induction t key i arbitrary: k rule: find_ordinal.induct)
  case (1 key i)
  then show ?case by simp
next
  case (2 n' v' ps key i)
  then show ?case by (cases k) auto
qed

lemma column_ordinal_range:
  "column_ordinal t n = - 1 \<or> (0 \<le> column_ordinal t n \<and> column_ordinal t n < int (length t))"
  using find_ordinal_range[of 0 t "parse_name n"] by (simp add: column_ordinal_def)

lemma column_ordinal_miss:
  "column_ordinal t n < 0 \<longleftrightarrow> (\<forall>p \<in> set t. parse_name (fst p) \<noteq> parse_name n)"
  using find_ordinal_miss[of 0 t "parse_name n"] by (simp add: column_ordinal_def)

lemma column_ordinal_hit:
  "0 \<le> column_ordinal t n \<Longrightarrow> parse_name (fst (t ! nat (column_ordinal t n))) = parse_name n"
  using find_ordinal_hit[of 0 t "parse_name n"] by (simp add: column_ordinal_def)

lemma column_ordinal_cong:
  "parse_name n = parse_name m \<Longrightarrow> column_ordinal t n = column_ordinal t m"
  by (simp add: column_ordinal_def)

lemma get_name_set_name_same:
  assumes "parse_name m = parse_name n"
  shows "get_name (set_name t n v) m = Inr v"
proof (cases "column_ordinal t n < 0")
  case True
  have "column_ordinal (t @ [(n, v)]) m = int (length t)"
    using True assms find_ordinal_append[of 0 t n v "parse_name m"]
    by (simp add: column_ordinal_def)
  then show ?thesis using True
    by (simp add: get_name_def set_name_def get_index_def Let_def)
next
  case False
  then have ge: "0 \<le> column_ordinal t n" by simp
  with column_ordinal_range[of t n] have lt: "nat (column_ordinal t n) < length t" by auto
  have "column_ordinal (t[nat (column_ordinal t n) := (fst (t ! nat (column_ordinal t n)), v)]) m
      = column_ordinal t n"
    using find_ordinal_update[OF refl lt, of v "parse_name m" 0] assms
    by (simp add: column_ordinal_def)
  then show ?thesis using False ge lt
    by (simp add: get_name_def set_name_def get_index_def Let_def)
qed

lemma get_name_set_name_other:
  assumes "parse_name m \<noteq> parse_name n"
  shows "(get_name (set_name t n v) m = Inr w) = (get_name t m = Inr w)"
proof (cases "column_ordinal t n < 0")
  case True
  have eq: "column_ordinal (t @ [(n, v)]) m = column_ordinal t m"
    using True assms find_ordinal_append[of 0 t n v "parse_name m"]
      column_ordinal_range[of t m]
    by (auto simp add: column_ordinal_def)
  show ?thesis using True eq column_ordinal_range[of t m]
    by (auto simp add: get_name_def set_name_def get_index_def nth_append Let_def)
next
  case False
  then have ge: "0 \<le> column_ordinal t n" by simp
  with column_ordinal_range[of t n] have lt: "nat (column_ordinal t n) < length t" by auto
  have eq: "column_ordinal (t[nat (column_ordinal t n) := (fst (t ! nat (column_ordinal t n)), v)]) m
      = column_ordinal t m"
    using find_ordinal_update[OF refl lt, of v "parse_name m" 0]
    by (simp add: column_ordinal_def)
  have neq: "0 \<le> column_ordinal t m \<Longrightarrow> nat (column_ordinal t m) \<noteq> nat (column_ordinal t n)"
    using column_ordinal_hit[OF ge] column_ordinal_hit[of t m] assms by auto
  show ?thesis using False ge lt eq neq column_ordinal_range[of t m]
    by (auto simp add: get_name_def set_name_def get_index_def Let_def)
qed

lemma set_name_fresh:
  "column_ordinal t n < 0 \<Longrightarrow> set_name t n v = t @ [(n, v)]"
  by (simp add: set_name_def Let_def)

section \<open>Payloads survive the round trip\<close>

lemma le_to_nat_nat_to_le: "le_to_nat (nat_to_le n x) = x mod 256 ^ n"
proof (induction n arbitrary: x)
  case 0
  then show ?case by simp
next
  case (Suc n)
  have "unat (of_nat (x mod 256) :: 8 word) = x mod 256"
    by (simp add: unat_of_nat)
  moreover have "x mod (256 * 256 ^ n) = 256 * ((x div 256) mod 256 ^ n) + x mod 256"
    by (simp add: mod_mult2_eq)
  ultimately show ?case using Suc by simp
qed

lemma decode_encode_le:
  fixes w :: "'a::len word"
  assumes "unat w < 256 ^ n"
  shows "decode_le (encode_le n w) = w"
  using assms by (simp add: decode_le_def encode_le_def le_to_nat_nat_to_le)

lemma decode_encode_8: "decode_le (encode_le (Suc 0) (w :: 8 word)) = w"
proof -
  have "unat w < 2 ^ 8"
    using unsigned_less [of w, where 'a = nat] by simp
  then have "unat w < 256 ^ 1"
    by simp
  then show ?thesis
    using decode_encode_le [of w 1] by simp
qed

lemma decode_encode_16: "decode_le (encode_le 2 (w :: 16 word)) = w"
proof -
  have "unat w < 2 ^ 16"
    using unsigned_less [of w, where 'a = nat] by simp
  then have "unat w < 256 ^ 2"
    by simp
  then show ?thesis
    using decode_encode_le [of w 2] by simp
qed

lemma decode_encode_32: "decode_le (encode_le 4 (w :: 32 word)) = w"
proof -
  have "unat w < 2 ^ 32"
    using unsigned_less [of w, where 'a = nat] by simp
  then have "unat w < 256 ^ 4"
    by simp
  then show ?thesis
    using decode_encode_le [of w 4] by simp
qed

lemma decode_encode_64: "decode_le (encode_le 8 (w :: 64 word)) = w"
proof -
  have "unat w < 2 ^ 64"
    using unsigned_less [of w, where 'a = nat] by simp
  then have "unat w < 256 ^ 8"
    by simp
  then show ?thesis
    using decode_encode_le [of w 8] by simp
qed

lemma decode_encode_128: "decode_le (encode_le 16 (w :: 128 word)) = w"
proof -
  have "unat w < 2 ^ 128"
    using unsigned_less [of w, where 'a = nat] by simp
  then have "unat w < 256 ^ 16"
    by simp
  then show ?thesis
    using decode_encode_le [of w 16] by simp
qed

lemma char_of_byte_of_char: "char_of_byte (byte_of_char c) = c"
  by (simp add: char_of_byte_def byte_of_char_def unat_of_nat)

lemma column_value_payload:
  "value_matches typ v \<Longrightarrow> column_value typ (Some (payload v)) = v"
  by (cases "typ"; cases v)
    (simp_all add: parser_get_int8_def parser_get_int16_def parser_get_int32_def
      parser_get_int64_def parser_get_float_def parser_get_double_def parser_get_uuid_def
      decode_encode_8 decode_encode_16 decode_encode_32 decode_encode_64 decode_encode_128
      char_of_byte_of_char comp_def)

section \<open>Steps of the codec\<close>

lemma int32_t_id: "0 \<le> x \<Longrightarrow> x < 2 ^ 31 \<Longrightarrow> int32_t x = x"
  by (simp add: int32_t_def)

lemma size_t_id: "0 \<le> x \<Longrightarrow> x < 2 ^ 31 \<Longrightarrow> size_t x = nat x"
  by (simp add: size_t_def)

lemma count_wf:
  "wf_schema sch \<Longrightarrow>
     int32_t (if key_only then int (size_t (key_column_count sch)) else int (length (columns sch)))
       = int (field_count sch key_only)"
  by (auto simp: wf_schema_def field_count_def int32_t_id size_t_id)

lemma count_size_wf:
  "wf_schema sch \<Longrightarrow>
     (if key_only then size_t (key_column_count sch) else length (columns sch))
       = field_count sch key_only"
  by (auto simp: wf_schema_def field_count_def size_t_id)

lemma field_count_le: "wf_schema sch \<Longrightarrow> field_count sch key_only \<le> length (columns sch)"
  by (auto simp: wf_schema_def field_count_def)

lemma column_at_Inr:
  "column_at sch i = Inr c \<longleftrightarrow> 0 \<le> i \<and> i < int (length (columns sch)) \<and> c = columns sch ! nat i"
  by (auto simp: column_at_def)

lemma drop_take_step:
  "0 \<le> i \<Longrightarrow> i < cnt \<Longrightarrow> cnt \<le> int (length cs) \<Longrightarrow>
     drop (nat i) (take (nat cnt) cs) = cs ! nat i # drop (nat (i + 1)) (take (nat cnt) cs)"
proof -
  assume a: "0 \<le> i" "i < cnt" "cnt \<le> int (length cs)"
  then have "nat i < length (take (nat cnt) cs)" by simp
  then have "drop (nat i) (take (nat cnt) cs)
      = take (nat cnt) cs ! nat i # drop (Suc (nat i)) (take (nat cnt) cs)"
    by (rule Cons_nth_drop_Suc [symmetric])
  moreover have "Suc (nat i) = nat (i + 1)" using a by simp
  moreover have "take (nat cnt) cs ! nat i = cs ! nat i" using a by simp
  ultimately show ?thesis by simp
qed

subsection \<open>The bitset\<close>

lemma bitset_set_Inr:
  "bitset_set nv k = Inr nv' \<Longrightarrow>
     length nv' = length nv \<and> (\<forall>j. bitset_test nv' j \<longleftrightarrow> bitset_test nv j \<or> j = k)"
proof -
  assume a: "bitset_set nv k = Inr nv'"
  then have lt: "k div 8 < length nv"
    and nv': "nv' = nv[k div 8 := (nv ! (k div 8)) OR push_bit (k mod 8) 1]"
    by (auto simp: bitset_set_def split: if_splits)
  have "bitset_test nv' j \<longleftrightarrow> bitset_test nv j \<or> j = k" for j
  proof (cases "j div 8 = k div 8")
    case True
    have "j = k \<longleftrightarrow> j mod 8 = k mod 8"
      using True by (metis div_mult_mod_eq)
    moreover have "j mod 8 < 8" by simp
    ultimately show ?thesis using True lt nv'
      by (auto simp: bitset_test_def bit_or_iff bit_exp_iff)
  next
    case False
    then have "j \<noteq> k" by auto
    then show ?thesis using False nv' by (auto simp: bitset_test_def)
  qed
  then show ?thesis using nv' by simp
qed

lemma bitset_set_ok: "k div 8 < length nv \<Longrightarrow> \<exists>nv'. bitset_set nv k = Inr nv'"
  by (simp add: bitset_set_def)

lemma bitset_span_clear: "\<not> bitset_test (bitset_span n) j"
  by (simp add: bitset_test_def bitset_span_def)

subsection \<open>One column\<close>

lemma append_column_Inr:
  "append_column b typ idx t = Inr b' \<longleftrightarrow>
     0 \<le> idx \<and> idx < int (length t) \<and> value_matches typ (snd (t ! nat idx))
     \<and> b' = append_field b (Some (payload (snd (t ! nat idx))))"
  by (cases "typ"; cases "snd (t ! nat idx)")
    (auto simp: append_column_def get_index_def get_int8_def get_int16_def get_int32_def
      get_int64_def get_float_def get_double_def get_uuid_def get_string_def get_bytes_def
      append_int8_def append_int16_def append_int32_def append_int64_def append_float_def
      append_double_def append_uuid_def append_typed_def type_not_supported_def)

lemma claim_column_ok:
  "0 \<le> idx \<Longrightarrow> idx < int (length t) \<Longrightarrow> value_matches typ (snd (t ! nat idx)) \<Longrightarrow>
     \<exists>b'. claim_column b typ idx t = Inr b'"
  by (cases "typ"; cases "snd (t ! nat idx)")
    (auto simp: claim_column_def get_index_def get_int8_def get_int16_def get_int32_def
      get_int64_def get_float_def get_double_def get_uuid_def get_string_def get_bytes_def)

lemma read_next_column_Inr:
  "read_next_column p typ = Inr (v, p') \<longleftrightarrow>
     (\<exists>f fs. remaining p = f # fs \<and> p' = p\<lparr>remaining := fs\<rparr> \<and> v = column_value typ f
        \<and> (f = None \<or> supported typ))"
  by (cases "typ"; cases "remaining p"; cases "hd (remaining p)")
    (auto simp: read_next_column_def get_next_def type_not_supported_def)

section \<open>The two passes of \<open>pack_tuple\<close>\<close>

declare pack_tuple_claim.simps [simp del]
declare pack_tuple_append.simps [simp del]
declare read_tuple_loop.simps [simp del]
declare read_tuple_key_loop.simps [simp del]
declare read_tuples_loop.simps [simp del]
declare read_tuples_opt_loop.simps [simp del]

lemma matches_on_Cons:
  "matches_on t (c # cs) \<longleftrightarrow>
     (0 \<le> column_ordinal t (name c) \<longrightarrow> value_matches (type c) (value_or_empty t (name c)))
     \<and> matches_on t cs"
  by (auto simp: matches_on_def)

lemma column_ordinal_bounds:
  "0 \<le> column_ordinal t n \<Longrightarrow> column_ordinal t n < int (length t)"
  using column_ordinal_range [of t n] by auto

lemma pack_tuple_claim_ok:
  "0 \<le> i \<Longrightarrow> cnt \<le> int (length (columns sch)) \<Longrightarrow>
     matches_on t (drop (nat i) (take (nat cnt) (columns sch))) \<Longrightarrow>
     \<exists>b'. pack_tuple_claim sch t cnt i b = Inr b'"
proof (induction sch t cnt i b rule: pack_tuple_claim.induct)
  case (1 sch t cnt i b)
  show ?case
  proof (cases "i < cnt")
    case False
    then show ?thesis by (subst pack_tuple_claim.simps) simp
  next
    case True
    let ?c = "columns sch ! nat i"
    have col: "column_at sch i = Inr ?c"
      using True 1(2,3) by (simp add: column_at_Inr)
    have step: "drop (nat i) (take (nat cnt) (columns sch))
        = ?c # drop (nat (i + 1)) (take (nat cnt) (columns sch))"
      by (rule drop_take_step [OF 1(2) True 1(3)])
    from 1(4) step have m: "0 \<le> column_ordinal t (name ?c) \<longrightarrow>
        value_matches (type ?c) (value_or_empty t (name ?c))"
      and rest: "matches_on t (drop (nat (i + 1)) (take (nat cnt) (columns sch)))"
      by (simp_all add: matches_on_Cons)
    obtain b1 where b1: "(if 0 \<le> column_ordinal t (name ?c)
          then claim_column b (type ?c) (column_ordinal t (name ?c)) t
          else Inr (claim b None)) = Inr b1"
    proof (cases "0 \<le> column_ordinal t (name ?c)")
      case False
      then show ?thesis using that by simp
    next
      case present: True
      with m have "value_matches (type ?c) (snd (t ! nat (column_ordinal t (name ?c))))"
        by (simp add: value_or_empty_def)
      from claim_column_ok [OF present column_ordinal_bounds [OF present] this, of b]
      show ?thesis using that present by auto
    qed
    have "\<exists>b'. pack_tuple_claim sch t cnt (i + 1) b1 = Inr b'"
      using "1.IH" [OF True col refl b1] 1(2,3) rest by simp
    then show ?thesis
      using True col b1 by (subst pack_tuple_claim.simps) (simp add: Let_def)
  qed
qed

lemma sum_case_Inr_iff:
  "(case x of Inl e \<Rightarrow> Inl e | Inr y \<Rightarrow> f y) = Inr z \<longleftrightarrow> (\<exists>y. x = Inr y \<and> f y = Inr z)"
  by (cases x) auto

lemma pack_tuple_append_Inr:
  "pack_tuple_append sch t cnt i (b, nv) = Inr (b', nv') \<Longrightarrow> 0 \<le> i \<Longrightarrow>
   cnt \<le> int (length (columns sch)) \<Longrightarrow> cnt < 2 ^ 31 \<Longrightarrow>
     b' = b\<lparr>entries := entries b @ map (field_of t) (drop (nat i) (take (nat cnt) (columns sch)))\<rparr>
     \<and> length nv' = length nv
     \<and> (\<forall>j. bitset_test nv' j \<longleftrightarrow>
            bitset_test nv j
            \<or> (nat i \<le> j \<and> j < nat cnt \<and> column_ordinal t (name (columns sch ! j)) < 0))"
proof (induction sch t cnt i "(b, nv)" arbitrary: b nv rule: pack_tuple_append.induct)
  case (1 sch t cnt i b nv)
  show ?case
  proof (cases "i < cnt")
    case False
    with 1(2) show ?thesis by (subst (asm) pack_tuple_append.simps) auto
  next
    case True
    let ?c = "columns sch ! nat i"
    let ?idx = "column_ordinal t (name ?c)"
    have col: "column_at sch i = Inr ?c"
      using True 1(3,4) by (simp add: column_at_Inr)
    have step: "drop (nat i) (take (nat cnt) (columns sch))
        = ?c # drop (nat (i + 1)) (take (nat cnt) (columns sch))"
      by (rule drop_take_step [OF 1(3) True 1(4)])
    from 1(2) True col obtain st where
      st: "(if 0 \<le> ?idx then
              (case append_column b (type ?c) ?idx t of
                 Inl e \<Rightarrow> Inl e | Inr builder' \<Rightarrow> Inr (builder', nv))
            else
              (case bitset_set nv (size_t i) of
                 Inl e \<Rightarrow> Inl e | Inr no_value' \<Rightarrow> Inr (append_field b None, no_value'))) = Inr st"
      and rec: "pack_tuple_append sch t cnt (i + 1) st = Inr (b', nv')"
      by (subst (asm) pack_tuple_append.simps) (auto simp: Let_def sum_case_Inr_iff)
    obtain b1 nv1 where st_eq: "st = (b1, nv1)" by (cases st)
    have sz: "size_t i = nat i"
      using 1(3,5) True by (simp add: size_t_id)
    have b1: "b1 = append_field b (field_of t ?c)"
      and len1: "length nv1 = length nv"
      and bits1: "\<forall>j. bitset_test nv1 j \<longleftrightarrow> bitset_test nv j \<or> (j = nat i \<and> ?idx < 0)"
    proof -
      show "b1 = append_field b (field_of t ?c)"
        using st st_eq
        by (auto simp: sum_case_Inr_iff append_column_Inr field_of_def split: if_splits)
      show "length nv1 = length nv"
        using st st_eq bitset_set_Inr [of nv "size_t i"]
        by (auto simp: sum_case_Inr_iff split: if_splits)
      show "\<forall>j. bitset_test nv1 j \<longleftrightarrow> bitset_test nv j \<or> (j = nat i \<and> ?idx < 0)"
        using st st_eq sz bitset_set_Inr [of nv "nat i"]
        by (auto simp: sum_case_Inr_iff split: if_splits)
    qed
    have ih: "b' = b1\<lparr>entries := entries b1
            @ map (field_of t) (drop (nat (i + 1)) (take (nat cnt) (columns sch)))\<rparr>
        \<and> length nv' = length nv1
        \<and> (\<forall>j. bitset_test nv' j \<longleftrightarrow>
              bitset_test nv1 j
              \<or> (nat (i + 1) \<le> j \<and> j < nat cnt \<and> column_ordinal t (name (columns sch ! j)) < 0))"
    proof (rule "1.hyps" [OF True col refl])
      show "(if 0 \<le> ?idx then
              (case append_column b (type ?c) ?idx t of
                 Inl e \<Rightarrow> Inl e | Inr builder' \<Rightarrow> Inr (builder', nv))
            else
              (case bitset_set nv (size_t i) of
                 Inl e \<Rightarrow> Inl e | Inr no_value' \<Rightarrow> Inr (append_field b None, no_value'))) = Inr (b1, nv1)"
        using st st_eq by simp
      show "pack_tuple_append sch t cnt (i + 1) (b1, nv1) = Inr (b', nv')"
        using rec st_eq by simp
      show "0 \<le> i + 1" using 1(3) by simp
      show "cnt \<le> int (length (columns sch))" by (rule 1(4))
      show "cnt < 2 ^ 31" by (rule 1(5))
    qed
    have e: "b' = b\<lparr>entries := entries b
        @ map (field_of t) (drop (nat i) (take (nat cnt) (columns sch)))\<rparr>"
      using ih b1 step by (simp add: append_field_def)
    have l: "length nv' = length nv" using ih len1 by simp
    have "bitset_test nv' j \<longleftrightarrow>
            bitset_test nv j
            \<or> (nat i \<le> j \<and> j < nat cnt \<and> column_ordinal t (name (columns sch ! j)) < 0)" for j
    proof -
      have "nat (i + 1) = Suc (nat i)" using 1(3) by simp
      moreover have "nat i < nat cnt" using True 1(3) by simp
      ultimately show ?thesis using ih bits1 by (cases "j = nat i") auto
    qed
    with e l show ?thesis by simp
  qed
qed

lemma pack_tuple_append_ok:
  "0 \<le> i \<Longrightarrow> cnt \<le> int (length (columns sch)) \<Longrightarrow> cnt < 2 ^ 31 \<Longrightarrow>
   nat cnt \<le> 8 * length nv \<Longrightarrow>
   matches_on t (drop (nat i) (take (nat cnt) (columns sch))) \<Longrightarrow>
     \<exists>b' nv'. pack_tuple_append sch t cnt i (b, nv) = Inr (b', nv')"
proof (induction sch t cnt i "(b, nv)" arbitrary: b nv rule: pack_tuple_append.induct)
  case (1 sch t cnt i b nv)
  show ?case
  proof (cases "i < cnt")
    case False
    then show ?thesis by (subst pack_tuple_append.simps) simp
  next
    case True
    let ?c = "columns sch ! nat i"
    let ?idx = "column_ordinal t (name ?c)"
    have col: "column_at sch i = Inr ?c"
      using True 1(2,3) by (simp add: column_at_Inr)
    have step: "drop (nat i) (take (nat cnt) (columns sch))
        = ?c # drop (nat (i + 1)) (take (nat cnt) (columns sch))"
      by (rule drop_take_step [OF 1(2) True 1(3)])
    from 1(6) step have m: "0 \<le> ?idx \<longrightarrow> value_matches (type ?c) (value_or_empty t (name ?c))"
      and rest: "matches_on t (drop (nat (i + 1)) (take (nat cnt) (columns sch)))"
      by (simp_all add: matches_on_Cons)
    have sz: "size_t i = nat i"
      using 1(2,4) True by (simp add: size_t_id)
    obtain b1 nv1 where st: "(if 0 \<le> ?idx then
              (case append_column b (type ?c) ?idx t of
                 Inl e \<Rightarrow> Inl e | Inr builder' \<Rightarrow> Inr (builder', nv))
            else
              (case bitset_set nv (size_t i) of
                 Inl e \<Rightarrow> Inl e | Inr no_value' \<Rightarrow> Inr (append_field b None, no_value'))) = Inr (b1, nv1)"
      and len1: "length nv1 = length nv"
    proof (cases "0 \<le> ?idx")
      case present: True
      with m have "value_matches (type ?c) (snd (t ! nat ?idx))"
        by (simp add: value_or_empty_def)
      then have "append_column b (type ?c) ?idx t
          = Inr (append_field b (Some (payload (snd (t ! nat ?idx)))))"
        using present column_ordinal_bounds [OF present] by (simp add: append_column_Inr)
      then show ?thesis using that present by simp
    next
      case False
      have "nat i div 8 < length nv" using True 1(2,5) by auto
      from bitset_set_ok [OF this] obtain nv1 where s: "bitset_set nv (nat i) = Inr nv1" by auto
      with bitset_set_Inr [OF s] show ?thesis using that False sz by simp
    qed
    have "\<exists>b' nv'. pack_tuple_append sch t cnt (i + 1) (b1, nv1) = Inr (b', nv')"
    proof (rule "1.hyps" [OF True col refl st])
      show "0 \<le> i + 1" using 1(2) by simp
      show "cnt \<le> int (length (columns sch))" by (rule 1(3))
      show "cnt < 2 ^ 31" by (rule 1(4))
      show "nat cnt \<le> 8 * length nv1" using 1(5) len1 by simp
      show "matches_on t (drop (nat (i + 1)) (take (nat cnt) (columns sch)))" by (rule rest)
    qed
    then show ?thesis
      using True col st by (subst pack_tuple_append.simps) (simp add: Let_def)
  qed
qed

lemma claim_column_entries:
  "claim_column b typ idx t = Inr b' \<Longrightarrow> entries b' = entries b"
  by (cases "typ")
    (auto simp: claim_column_def claim_def claim_int8_def claim_int16_def claim_int32_def
      claim_int64_def claim_float_def claim_double_def claim_uuid_def sum_case_Inr_iff)

lemma pack_tuple_claim_entries:
  "pack_tuple_claim sch t cnt i b = Inr b' \<Longrightarrow> entries b' = entries b"
proof (induction sch t cnt i b rule: pack_tuple_claim.induct)
  case (1 sch t cnt i b)
  show ?case
  proof (cases "i < cnt")
    case False
    with 1(2) show ?thesis by (subst (asm) pack_tuple_claim.simps) simp
  next
    case True
    from 1(2) True obtain col b1 where
      col: "column_at sch i = Inr col"
      and b1: "(if 0 \<le> column_ordinal t (name col)
            then claim_column b (type col) (column_ordinal t (name col)) t
            else Inr (claim b None)) = Inr b1"
      and rec: "pack_tuple_claim sch t cnt (i + 1) b1 = Inr b'"
      by (subst (asm) pack_tuple_claim.simps) (auto simp: Let_def sum_case_Inr_iff)
    have "entries b1 = entries b"
      using b1 claim_column_entries [of b "type col" "column_ordinal t (name col)" t b1]
      by (auto simp: claim_def split: if_splits)
    moreover have "entries b' = entries b1"
      by (rule "1.IH" [OF True col refl b1 rec])
    ultimately show ?thesis by simp
  qed
qed

lemma pack_tuple_Inr:
  assumes wf: "wf_schema sch"
    and p: "pack_tuple sch t key_only nv = Inr (data, nv')"
  shows "data = map (field_of t) (take (field_count sch key_only) (columns sch))
     \<and> length nv' = length nv
     \<and> (\<forall>j. bitset_test nv' j \<longleftrightarrow>
            bitset_test nv j
            \<or> (j < field_count sch key_only \<and> column_ordinal t (name (columns sch ! j)) < 0))"
proof -
  let ?cnt = "int (field_count sch key_only)"
  from p obtain b1 b2 where
    a: "pack_tuple_append sch t ?cnt 0 (layout b1, nv) = Inr (b2, nv')"
    and c: "pack_tuple_claim sch t ?cnt 0 (start (binary_tuple_builder ?cnt)) = Inr b1"
    and d: "data = build b2"
    by (auto simp: pack_tuple_def count_wf [OF wf] Let_def sum_case_Inr_iff)
  have le: "?cnt \<le> int (length (columns sch))"
    using field_count_le [OF wf, of key_only] by simp
  have lt: "?cnt < 2 ^ 31"
    using le wf by (simp add: wf_schema_def)
  have e1: "entries b1 = []"
    using pack_tuple_claim_entries [OF c] by (simp add: start_def binary_tuple_builder_def)
  from pack_tuple_append_Inr [OF a _ le lt] e1 d show ?thesis
    by (simp add: build_def layout_def)
qed

lemma pack_tuple_ok:
  assumes wf: "wf_schema sch"
    and m: "matches_on t (take (field_count sch key_only) (columns sch))"
    and len: "field_count sch key_only \<le> 8 * length nv"
  shows "\<exists>data nv'. pack_tuple sch t key_only nv = Inr (data, nv')"
proof -
  let ?cnt = "int (field_count sch key_only)"
  have le: "?cnt \<le> int (length (columns sch))"
    using field_count_le [OF wf, of key_only] by simp
  have lt: "?cnt < 2 ^ 31"
    using le wf by (simp add: wf_schema_def)
  from pack_tuple_claim_ok [OF _ le, of 0 t "start (binary_tuple_builder ?cnt)"] m
  obtain b1 where c: "pack_tuple_claim sch t ?cnt 0 (start (binary_tuple_builder ?cnt)) = Inr b1"
    by auto
  from pack_tuple_append_ok [OF _ le lt, of 0 nv t "layout b1"] m len
  obtain b2 nv' where a: "pack_tuple_append sch t ?cnt 0 (layout b1, nv) = Inr (b2, nv')"
    by auto
  show ?thesis
    using c a by (simp add: pack_tuple_def count_wf [OF wf] Let_def)
qed

lemma field_of_None: "field_of t c = None \<longleftrightarrow> column_ordinal t (name c) < 0"
  by (simp add: field_of_def)

section \<open>The loop of \<open>read_tuple\<close>\<close>

lemma read_columns_Cons:
  "read_columns (c # cs) (f # fs) = (name c, column_value (type c) f) # read_columns cs fs"
  by (simp add: read_columns_def)

lemma read_columns_Nil: "read_columns [] fs = []"
  by (simp add: read_columns_def)

lemma read_tuple_loop_Inr:
  "read_tuple_loop sch cnt i (p, res) = Inr (p', res') \<Longrightarrow> 0 \<le> i \<Longrightarrow>
   cnt \<le> int (length (columns sch)) \<Longrightarrow>
     \<exists>fs. list_all2 readable (drop (nat i) (take (nat cnt) (columns sch))) fs
       \<and> remaining p = fs @ remaining p'
       \<and> p' = p\<lparr>remaining := remaining p'\<rparr>
       \<and> res' = set_all res (read_columns (drop (nat i) (take (nat cnt) (columns sch))) fs)"
proof (induction sch cnt i "(p, res)" arbitrary: p res rule: read_tuple_loop.induct)
  case (1 sch cnt i p res)
  show ?case
  proof (cases "i < cnt")
    case False
    with 1(2) show ?thesis by (subst (asm) read_tuple_loop.simps) (auto simp: read_columns_Nil)
  next
    case True
    let ?c = "columns sch ! nat i"
    have col: "column_at sch i = Inr ?c"
      using True 1(3,4) by (simp add: column_at_Inr)
    have step: "drop (nat i) (take (nat cnt) (columns sch))
        = ?c # drop (nat (i + 1)) (take (nat cnt) (columns sch))"
      by (rule drop_take_step [OF 1(3) True 1(4)])
    from 1(2) True col obtain v p1 where
      rd: "read_next_column p (type ?c) = Inr (v, p1)"
      and rec: "read_tuple_loop sch cnt (i + 1) (p1, set_name res (name ?c) v) = Inr (p', res')"
      by (subst (asm) read_tuple_loop.simps) (auto simp: sum_case_Inr_iff)
    from rd obtain f fs0 where
      f: "remaining p = f # fs0" "p1 = p\<lparr>remaining := fs0\<rparr>" "v = column_value (type ?c) f"
        "readable ?c f"
      by (auto simp: read_next_column_Inr readable_def)
    have "0 \<le> i + 1" using 1(3) by simp
    from "1.hyps" [OF True col rd refl rec this 1(4)]
    obtain fs where
      fs: "list_all2 readable (drop (nat (i + 1)) (take (nat cnt) (columns sch))) fs"
        "remaining p1 = fs @ remaining p'" "p' = p1\<lparr>remaining := remaining p'\<rparr>"
        "res' = set_all (set_name res (name ?c) v)
                  (read_columns (drop (nat (i + 1)) (take (nat cnt) (columns sch))) fs)"
      by auto
    show ?thesis
    proof (intro exI [of _ "f # fs"] conjI)
      show "list_all2 readable (drop (nat i) (take (nat cnt) (columns sch))) (f # fs)"
        using step fs(1) f(4) by simp
      show "remaining p = (f # fs) @ remaining p'"
        using f(1,2) fs(2) by simp
      show "p' = p\<lparr>remaining := remaining p'\<rparr>"
        using fs(3) f(2) by simp
      show "res' = set_all res (read_columns (drop (nat i) (take (nat cnt) (columns sch))) (f # fs))"
        using step fs(4) f(3) by (simp add: read_columns_Cons)
    qed
  qed
qed

lemma read_tuple_loop_ok:
  "0 \<le> i \<Longrightarrow> cnt \<le> int (length (columns sch)) \<Longrightarrow>
   list_all2 readable (drop (nat i) (take (nat cnt) (columns sch))) fs \<Longrightarrow>
   remaining p = fs @ rest \<Longrightarrow>
     read_tuple_loop sch cnt i (p, res)
       = Inr (p\<lparr>remaining := rest\<rparr>,
              set_all res (read_columns (drop (nat i) (take (nat cnt) (columns sch))) fs))"
proof (induction sch cnt i "(p, res)" arbitrary: p res fs rule: read_tuple_loop.induct)
  case (1 sch cnt i p res)
  show ?case
  proof (cases "i < cnt")
    case False
    then have "drop (nat i) (take (nat cnt) (columns sch)) = []" by simp
    with 1(4,5) False show ?thesis
      by (subst read_tuple_loop.simps) (simp add: read_columns_Nil)
  next
    case True
    let ?c = "columns sch ! nat i"
    have col: "column_at sch i = Inr ?c"
      using True 1(2,3) by (simp add: column_at_Inr)
    have step: "drop (nat i) (take (nat cnt) (columns sch))
        = ?c # drop (nat (i + 1)) (take (nat cnt) (columns sch))"
      by (rule drop_take_step [OF 1(2) True 1(3)])
    from 1(4) step obtain f fs1 where
      fs: "fs = f # fs1" "readable ?c f"
        "list_all2 readable (drop (nat (i + 1)) (take (nat cnt) (columns sch))) fs1"
      by (auto simp: list_all2_Cons1)
    have rd: "read_next_column p (type ?c)
        = Inr (column_value (type ?c) f, p\<lparr>remaining := fs1 @ rest\<rparr>)"
      using fs(1,2) 1(5) by (simp add: read_next_column_Inr readable_def)
    have "0 \<le> i + 1" using 1(2) by simp
    from "1.hyps" [OF True col rd refl this 1(3) fs(3)]
    have "read_tuple_loop sch cnt (i + 1)
            (p\<lparr>remaining := fs1 @ rest\<rparr>, set_name res (name ?c) (column_value (type ?c) f))
          = Inr (p\<lparr>remaining := rest\<rparr>,
              set_all (set_name res (name ?c) (column_value (type ?c) f))
                (read_columns (drop (nat (i + 1)) (take (nat cnt) (columns sch))) fs1))"
      by simp
    then show ?thesis
      using True col rd step fs(1)
      by (subst read_tuple_loop.simps) (simp add: read_columns_Cons)
  qed
qed

lemma read_binary_Inr: "read_binary r = Inr (d, r') \<longleftrightarrow> r = Msg_binary d # r'"
  by (auto simp: read_binary_def split: list.splits msgpack_object.splits)

lemma set_all_append: "set_all res (xs @ ys) = set_all (set_all res xs) ys"
  by (induction res xs rule: set_all.induct) auto

lemma column_ordinal_set_name:
  "column_ordinal (set_name t n v) m < 0 \<longleftrightarrow>
     column_ordinal t m < 0 \<and> parse_name m \<noteq> parse_name n"
proof (cases "column_ordinal t n < 0")
  case True
  then show ?thesis
    by (auto simp: set_name_def column_ordinal_miss)
next
  case False
  then have ge: "0 \<le> column_ordinal t n" by simp
  with column_ordinal_range [of t n] have lt: "nat (column_ordinal t n) < length t" by auto
  have "column_ordinal (t[nat (column_ordinal t n) := (fst (t ! nat (column_ordinal t n)), v)]) m
      = column_ordinal t m"
    using find_ordinal_update [OF refl lt, of v "parse_name m" 0]
    by (simp add: column_ordinal_def)
  moreover have "parse_name m = parse_name n \<Longrightarrow> 0 \<le> column_ordinal t m"
    using ge column_ordinal_cong [of m n t] by simp
  ultimately show ?thesis using False by (auto simp: set_name_def Let_def)
qed

lemma set_all_fresh:
  "distinct (map (\<lambda>x. parse_name (fst x)) nvs) \<Longrightarrow>
   \<forall>x \<in> set nvs. column_ordinal res (fst x) < 0 \<Longrightarrow> set_all res nvs = res @ nvs"
proof (induction res nvs rule: set_all.induct)
  case (1 res)
  then show ?case by simp
next
  case (2 res n v nvs)
  have fresh: "column_ordinal res n < 0" using 2(3) by simp
  have "\<forall>x \<in> set nvs. column_ordinal (set_name res n v) (fst x) < 0"
  proof
    fix x assume x: "x \<in> set nvs"
    then have "parse_name (fst x) \<in> (\<lambda>x. parse_name (fst x)) ` set nvs" by (rule imageI)
    moreover from 2(2) have "parse_name n \<notin> (\<lambda>x. parse_name (fst x)) ` set nvs" by simp
    ultimately have "parse_name (fst x) \<noteq> parse_name n" by metis
    with x 2(3) show "column_ordinal (set_name res n v) (fst x) < 0"
      by (simp add: column_ordinal_set_name)
  qed
  with 2 have "set_all (set_name res n v) nvs = set_name res n v @ nvs" by simp
  then show ?case using fresh by (simp add: set_name_fresh)
qed

lemma column_ordinal_Nil: "column_ordinal [] n < 0"
  by (simp add: column_ordinal_def)

lemma get_name_set_all:
  "(\<exists>x \<in> set nvs. parse_name (fst x) = parse_name n) \<or> get_name res n = Inr v \<Longrightarrow>
   \<forall>x \<in> set nvs. parse_name (fst x) = parse_name n \<longrightarrow> snd x = v \<Longrightarrow>
     get_name (set_all res nvs) n = Inr v"
proof (induction res nvs rule: set_all.induct)
  case (1 res)
  then show ?case by simp
next
  case (2 res n' v' nvs)
  have "(\<exists>x \<in> set nvs. parse_name (fst x) = parse_name n)
      \<or> get_name (set_name res n' v') n = Inr v"
  proof (cases "parse_name n = parse_name n'")
    case True
    with 2(3) have "v' = v" by simp
    with True show ?thesis by (simp add: get_name_set_name_same)
  next
    case False
    with 2(2) show ?thesis by (auto simp: get_name_set_name_other)
  qed
  with 2 show ?case by simp
qed

lemma value_matches_supported: "value_matches typ v \<Longrightarrow> supported typ"
  by (cases "typ") auto

lemma read_tuple_iff:
  assumes wf: "wf_schema sch"
  shows "read_tuple reader sch key_only = Inr (res, reader') \<longleftrightarrow>
     (\<exists>data. reader = Msg_binary data # reader'
        \<and> list_all2 readable (take (field_count sch key_only) (columns sch)) data
        \<and> res = set_all [] (read_columns (take (field_count sch key_only) (columns sch)) data))"
    (is "?lhs \<longleftrightarrow> ?rhs")
proof
  let ?n = "field_count sch key_only"
  have le: "int ?n \<le> int (length (columns sch))"
    using field_count_le [OF wf, of key_only] by simp
  {
    assume ?lhs
    then obtain data p p' where
      rd: "reader = Msg_binary data # reader'"
      and p: "binary_tuple_parser (int ?n) data = Inr p"
      and lp: "read_tuple_loop sch (int ?n) 0 (p, []) = Inr (p', res)"
      by (auto simp: read_tuple_def count_wf [OF wf] Let_def sum_case_Inr_iff read_binary_Inr
          ignite_tuple_def)
    from p have len: "length data = ?n" and rem: "remaining p = data"
      by (auto simp: binary_tuple_parser_def split: if_splits)
    from read_tuple_loop_Inr [OF lp _ le] obtain fs where
      fs: "list_all2 readable (take ?n (columns sch)) fs" "remaining p = fs @ remaining p'"
        "res = set_all [] (read_columns (take ?n (columns sch)) fs)"
      by auto
    have "length fs = ?n"
      using list_all2_lengthD [OF fs(1)] le by simp
    with fs(2) rem len have "data = fs" by simp
    with rd fs show ?rhs by auto
  next
    assume ?rhs
    then obtain data where
      rd: "reader = Msg_binary data # reader'"
      and all: "list_all2 readable (take ?n (columns sch)) data"
      and res: "res = set_all [] (read_columns (take ?n (columns sch)) data)"
      by auto
    have len: "length data = ?n"
      using list_all2_lengthD [OF all] le by simp
    have "read_tuple_loop sch (int ?n) 0 (\<lparr>num_elements = int ?n, remaining = data\<rparr>, [])
        = Inr (\<lparr>num_elements = int ?n, remaining = data\<rparr>\<lparr>remaining := []\<rparr>,
               set_all [] (read_columns (drop (nat 0) (take (nat (int ?n)) (columns sch))) data))"
      by (rule read_tuple_loop_ok [OF _ le]) (use all in simp_all)
    then show ?lhs
      using rd res len
      by (simp add: read_tuple_def count_wf [OF wf] Let_def read_binary_def
          binary_tuple_parser_def ignite_tuple_def)
  }
qed

lemma read_columns_names:
  "length cs = length fs \<Longrightarrow>
     map (\<lambda>x. parse_name (fst x)) (read_columns cs fs) = map (\<lambda>c. parse_name (name c)) cs"
  by (induction cs fs rule: list_induct2) (simp_all add: read_columns_def)

lemma read_columns_length: "length cs = length fs \<Longrightarrow> length (read_columns cs fs) = length cs"
  by (simp add: read_columns_def)

lemma read_columns_nth:
  "length cs = length fs \<Longrightarrow> i < length cs \<Longrightarrow>
     read_columns cs fs ! i = (name (cs ! i), column_value (type (cs ! i)) (fs ! i))"
  by (simp add: read_columns_def)

lemma distinct_names_take:
  "distinct_names sch \<Longrightarrow> distinct (map (\<lambda>c. parse_name (name c)) (take n (columns sch)))"
  by (simp add: distinct_names_def take_map [symmetric])

lemma set_all_read_columns:
  assumes "distinct_names sch" and "length fs = length (take n (columns sch))"
  shows "set_all [] (read_columns (take n (columns sch)) fs) = read_columns (take n (columns sch)) fs"
proof -
  have "distinct (map (\<lambda>x. parse_name (fst x)) (read_columns (take n (columns sch)) fs))"
    using assms distinct_names_take [of sch n] by (simp add: read_columns_names)
  then have "set_all [] (read_columns (take n (columns sch)) fs)
      = [] @ read_columns (take n (columns sch)) fs"
    by (rule set_all_fresh) (simp add: column_ordinal_Nil)
  then show ?thesis by simp
qed

section \<open>Writing a tuple and reading it back\<close>

lemma value_or_empty_cong:
  "parse_name n = parse_name m \<Longrightarrow> value_or_empty t n = value_or_empty t m"
  by (simp add: value_or_empty_def column_ordinal_def)

lemma get_name_key_columns:
  assumes "c \<in> set cs" and "parse_name n = parse_name (name c)"
  shows "get_name (set_all res (key_columns t cs)) n = Inr (value_or_empty t n)"
proof (rule get_name_set_all)
  have "(name c, value_or_empty t (name c)) \<in> set (key_columns t cs)"
    using assms(1) by (auto simp: key_columns_def)
  then show "(\<exists>x \<in> set (key_columns t cs). parse_name (fst x) = parse_name n)
      \<or> get_name res n = Inr (value_or_empty t n)"
    using assms(2) by force
  show "\<forall>x\<in>set (key_columns t cs). parse_name (fst x) = parse_name n \<longrightarrow> snd x = value_or_empty t n"
    by (auto simp: key_columns_def intro: value_or_empty_cong)
qed

lemma read_columns_field_of:
  "matches_on t cs \<Longrightarrow> read_columns cs (map (field_of t) cs) = key_columns t cs"
proof (induction cs)
  case Nil
  then show ?case by (simp add: read_columns_def key_columns_def)
next
  case (Cons c cs)
  have "column_value (type c) (field_of t c) = value_or_empty t (name c)"
    using Cons(2) by (auto simp: matches_on_Cons field_of_def value_or_empty_def column_value_payload)
  moreover have "read_columns cs (map (field_of t) cs) = key_columns t cs"
    using Cons by (simp add: matches_on_Cons)
  ultimately show ?case by (simp add: read_columns_Cons key_columns_def)
qed

lemma readable_field_of:
  "matches_on t cs \<Longrightarrow> list_all2 readable cs (map (field_of t) cs)"
proof (induction cs)
  case Nil
  then show ?case by simp
next
  case (Cons c cs)
  have "readable c (field_of t c)"
    using Cons(2) value_matches_supported [of "type c" "value_or_empty t (name c)"]
    by (auto simp: matches_on_Cons field_of_def readable_def)
  with Cons show ?case by (simp add: matches_on_Cons)
qed

lemma length_bitset_span: "length (bitset_span n) = n"
  by (simp add: bitset_span_def)

lemma write_tuple_Inr:
  assumes wf: "wf_schema sch"
    and w: "write_tuple writer sch t key_only = Inr writer'"
  shows "\<exists>no_value. writer' = writer @ [Msg_bitset no_value,
      Msg_binary (map (field_of t) (take (field_count sch key_only) (columns sch)))]
    \<and> length no_value = bytes_for_bits (field_count sch key_only)
    \<and> (\<forall>j. bitset_test no_value j \<longleftrightarrow>
          j < field_count sch key_only \<and> column_ordinal t (name (columns sch ! j)) < 0)"
proof -
  from w obtain data nv' where
    p: "pack_tuple sch t key_only (bitset_span (bytes_for_bits (field_count sch key_only)))
          = Inr (data, nv')"
    and w': "writer' = write_binary (write_bitset writer nv') data"
    by (auto simp: write_tuple_def count_size_wf [OF wf] Let_def sum_case_Inr_iff)
  from pack_tuple_Inr [OF wf p] w' show ?thesis
    by (simp add: write_binary_def write_bitset_def bitset_span_clear length_bitset_span)
qed

lemma write_tuple_ok:
  assumes wf: "wf_schema sch"
    and m: "matches_on t (take (field_count sch key_only) (columns sch))"
  shows "\<exists>writer'. write_tuple writer sch t key_only = Inr writer'"
proof -
  have "field_count sch key_only
      \<le> 8 * length (bitset_span (bytes_for_bits (field_count sch key_only)))"
    by (simp add: length_bitset_span bytes_for_bits_def)
  from pack_tuple_ok [OF wf m this] show ?thesis
    by (auto simp: write_tuple_def count_size_wf [OF wf] Let_def)
qed

section \<open>The loop of the key-merging \<open>read_tuple\<close>\<close>

lemma key_loop_values:
  "key_column_count sch \<le> i \<Longrightarrow>
     read_tuple_key_loop sch key cnt i (p, res) = read_tuple_loop sch cnt i (p, res)"
proof (induction sch key cnt i "(p, res)" arbitrary: p res rule: read_tuple_key_loop.induct)
  case (1 sch key cnt i p res)
  show ?case
  proof (cases "i < cnt")
    case False
    then show ?thesis
      by (subst read_tuple_key_loop.simps, subst read_tuple_loop.simps) simp
  next
    case True
    show ?thesis
    proof (cases "column_at sch i")
      case (Inl e)
      with True show ?thesis
        by (subst read_tuple_key_loop.simps, subst read_tuple_loop.simps) simp
    next
      case (Inr c)
      show ?thesis
      proof (cases "read_next_column p (type c)")
        case (Inl e)
        with True Inr 1(2) show ?thesis
          by (subst read_tuple_key_loop.simps, subst read_tuple_loop.simps) simp
      next
        case rd: (Inr vp)
        obtain v p1 where vp: "vp = (v, p1)" by (cases vp)
        have st: "(if i < key_column_count sch then
                    (case get_name key (name c) of
                       Inl e \<Rightarrow> Inl e
                     | Inr v \<Rightarrow> Inr (p, set_name res (name c) v))
                  else
                    (case read_next_column p (type c) of
                       Inl e \<Rightarrow> Inl e
                     | Inr (v, parser') \<Rightarrow> Inr (parser', set_name res (name c) v)))
                = Inr (p1, set_name res (name c) v)"
          using 1(2) rd vp by simp
        have "read_tuple_key_loop sch key cnt (i + 1) (p1, set_name res (name c) v)
            = read_tuple_loop sch cnt (i + 1) (p1, set_name res (name c) v)"
          using "1.hyps" [OF True Inr st] 1(2) by simp
        then show ?thesis
          using True Inr rd vp 1(2)
          by (subst read_tuple_key_loop.simps, subst read_tuple_loop.simps) simp
      qed
    qed
  qed
qed

lemma get_name_present:
  "0 \<le> column_ordinal t n \<Longrightarrow> get_name t n = Inr (value_or_empty t n)"
  using column_ordinal_bounds [of t n]
  by (simp add: get_name_def value_or_empty_def get_index_def Let_def)

lemma get_name_absent:
  "column_ordinal t n < 0 \<Longrightarrow> get_name t n = Inl (FieldNotFound n)"
  by (simp add: get_name_def Let_def)

lemma key_columns_Cons:
  "key_columns key (c # cs) = (name c, value_or_empty key (name c)) # key_columns key cs"
  by (simp add: key_columns_def)

lemma key_loop_keys:
  "0 \<le> i \<Longrightarrow> i \<le> key_column_count sch \<Longrightarrow> key_column_count sch \<le> cnt \<Longrightarrow>
   cnt \<le> int (length (columns sch)) \<Longrightarrow>
     (read_tuple_key_loop sch key cnt i (p, res) = Inr r) \<longleftrightarrow>
       (\<forall>c \<in> set (drop (nat i) (take (nat (key_column_count sch)) (columns sch))).
          0 \<le> column_ordinal key (name c))
       \<and> read_tuple_key_loop sch key cnt (key_column_count sch)
            (p, set_all res
                  (key_columns key (drop (nat i) (take (nat (key_column_count sch)) (columns sch)))))
          = Inr r"
proof (induction sch key cnt i "(p, res)" arbitrary: p res rule: read_tuple_key_loop.induct)
  case (1 sch key cnt i p res)
  let ?kc = "key_column_count sch"
  show ?case
  proof (cases "i < ?kc")
    case False
    with 1(3) have "i = ?kc" by simp
    then show ?thesis by (simp add: key_columns_def)
  next
    case True
    then have lt: "i < cnt" using 1(4) by simp
    let ?c = "columns sch ! nat i"
    have col: "column_at sch i = Inr ?c"
      using lt 1(2,5) by (simp add: column_at_Inr)
    have kle: "?kc \<le> int (length (columns sch))" using 1(4,5) by simp
    have step: "drop (nat i) (take (nat ?kc) (columns sch))
        = ?c # drop (nat (i + 1)) (take (nat ?kc) (columns sch))"
      by (rule drop_take_step [OF 1(2) True kle])
    show ?thesis
    proof (cases "0 \<le> column_ordinal key (name ?c)")
      case False
      then have "get_name key (name ?c) = Inl (FieldNotFound (name ?c))"
        by (simp add: get_name_absent)
      then have "read_tuple_key_loop sch key cnt i (p, res) = Inl (FieldNotFound (name ?c))"
        using lt col True by (subst read_tuple_key_loop.simps) simp
      then show ?thesis using False step by simp
    next
      case present: True
      let ?v = "value_or_empty key (name ?c)"
      have g: "get_name key (name ?c) = Inr ?v"
        using present by (rule get_name_present)
      have st: "(if i < ?kc then
                    (case get_name key (name ?c) of
                       Inl e \<Rightarrow> Inl e
                     | Inr v \<Rightarrow> Inr (p, set_name res (name ?c) v))
                  else
                    (case read_next_column p (type ?c) of
                       Inl e \<Rightarrow> Inl e
                     | Inr (v, parser') \<Rightarrow> Inr (parser', set_name res (name ?c) v)))
                = Inr (p, set_name res (name ?c) ?v)"
        using True g by simp
      have unfold: "read_tuple_key_loop sch key cnt i (p, res)
          = read_tuple_key_loop sch key cnt (i + 1) (p, set_name res (name ?c) ?v)"
        using lt col st by (subst read_tuple_key_loop.simps) simp
      have "0 \<le> i + 1" "i + 1 \<le> ?kc" using 1(2) True by simp_all
      from "1.hyps" [OF lt col st this 1(4,5)] unfold present step
      show ?thesis by (simp add: key_columns_Cons)
    qed
  qed
qed

lemma read_tuple_key_iff:
  assumes wf: "wf_schema sch"
  shows "read_tuple_key reader sch key = Inr (res, reader') \<longleftrightarrow>
     (\<exists>data. reader = Msg_binary data # reader'
        \<and> (\<forall>c \<in> set (take (nat (key_column_count sch)) (columns sch)).
              0 \<le> column_ordinal key (name c))
        \<and> list_all2 readable (drop (nat (key_column_count sch)) (columns sch)) data
        \<and> res = set_all []
              (key_columns key (take (nat (key_column_count sch)) (columns sch))
               @ read_columns (drop (nat (key_column_count sch)) (columns sch)) data))"
    (is "?lhs \<longleftrightarrow> ?rhs")
proof -
  let ?kc = "key_column_count sch"
  let ?n = "int (length (columns sch))"
  let ?keys = "take (nat ?kc) (columns sch)"
  let ?vals = "drop (nat ?kc) (columns sch)"
  let ?res0 = "set_all [] (key_columns key ?keys)"
  have kc: "0 \<le> ?kc" "?kc \<le> ?n" and n: "int32_t ?n = ?n"
    using wf by (simp_all add: wf_schema_def int32_t_id)
  have lv: "length ?vals = nat (?n - ?kc)" using kc by simp
  have dv: "drop (nat ?kc) (take (nat ?n) (columns sch)) = ?vals" by simp
  have loop: "(read_tuple_key_loop sch key ?n 0 (p, []) = Inr r) \<longleftrightarrow>
      (\<forall>c \<in> set ?keys. 0 \<le> column_ordinal key (name c))
      \<and> read_tuple_loop sch ?n ?kc (p, ?res0) = Inr r" for p r
    using key_loop_keys [of 0 sch ?n key p "[]" r] kc key_loop_values [of sch ?kc key ?n p ?res0]
    by simp
  show ?thesis
  proof
    assume ?lhs
    then obtain data p p' where
      rd: "reader = Msg_binary data # reader'"
      and p: "binary_tuple_parser (?n - ?kc) data = Inr p"
      and lp: "read_tuple_key_loop sch key ?n 0 (p, []) = Inr (p', res)"
      by (auto simp: read_tuple_key_def n Let_def sum_case_Inr_iff read_binary_Inr
          ignite_tuple_def)
    from p have len: "int (length data) = ?n - ?kc" and rem: "remaining p = data"
      by (auto simp: binary_tuple_parser_def split: if_splits)
    from lp loop have keys: "\<forall>c \<in> set ?keys. 0 \<le> column_ordinal key (name c)"
      and lp': "read_tuple_loop sch ?n ?kc (p, ?res0) = Inr (p', res)"
      by auto
    from read_tuple_loop_Inr [OF lp' kc(1)] dv obtain fs where
      fs: "list_all2 readable ?vals fs" "remaining p = fs @ remaining p'"
        "res = set_all ?res0 (read_columns ?vals fs)"
      by auto
    have "length fs = nat (?n - ?kc)"
      using list_all2_lengthD [OF fs(1)] lv by simp
    moreover have "length data = nat (?n - ?kc)" using len by simp
    ultimately have "remaining p' = []" using fs(2) rem by simp
    with fs(2) rem have "data = fs" by simp
    with rd fs keys show ?rhs by (auto simp: set_all_append)
  next
    assume ?rhs
    then obtain data where
      rd: "reader = Msg_binary data # reader'"
      and keys: "\<forall>c \<in> set ?keys. 0 \<le> column_ordinal key (name c)"
      and all: "list_all2 readable ?vals data"
      and res: "res = set_all [] (key_columns key ?keys @ read_columns ?vals data)"
      by auto
    have len: "int (length data) = ?n - ?kc"
      using list_all2_lengthD [OF all] lv kc by simp
    let ?p = "\<lparr>num_elements = ?n - ?kc, remaining = data\<rparr>"
    have "read_tuple_loop sch ?n ?kc (?p, ?res0)
        = Inr (?p\<lparr>remaining := []\<rparr>,
               set_all ?res0 (read_columns (drop (nat ?kc) (take (nat ?n) (columns sch))) data))"
      by (rule read_tuple_loop_ok [OF kc(1)]) (use all in simp_all)
    with loop [of ?p] keys dv
    have "read_tuple_key_loop sch key ?n 0 (?p, [])
        = Inr (?p\<lparr>remaining := []\<rparr>, set_all ?res0 (read_columns ?vals data))"
      by simp
    then show ?lhs
      using rd res len
      by (simp add: read_tuple_key_def n Let_def read_binary_def binary_tuple_parser_def
          ignite_tuple_def set_all_append)
  qed
qed

lemma get_name_distinct_nth:
  assumes d: "distinct (map (\<lambda>x. parse_name (fst x)) nvs)" and k: "k < length nvs"
  shows "get_name nvs (fst (nvs ! k)) = Inr (snd (nvs ! k))"
proof -
  have eq: "set_all [] nvs = nvs"
    using set_all_fresh [OF d, of "[]"] by (simp add: column_ordinal_Nil)
  have "get_name (set_all [] nvs) (fst (nvs ! k)) = Inr (snd (nvs ! k))"
  proof (rule get_name_set_all)
    show "(\<exists>x \<in> set nvs. parse_name (fst x) = parse_name (fst (nvs ! k)))
        \<or> get_name [] (fst (nvs ! k)) = Inr (snd (nvs ! k))"
      using k by auto
    show "\<forall>x \<in> set nvs. parse_name (fst x) = parse_name (fst (nvs ! k)) \<longrightarrow> snd x = snd (nvs ! k)"
    proof (intro ballI impI)
      fix x assume x: "x \<in> set nvs" and e: "parse_name (fst x) = parse_name (fst (nvs ! k))"
      from x obtain j where j: "j < length nvs" "x = nvs ! j"
        by (auto simp: in_set_conv_nth)
      have "map (\<lambda>x. parse_name (fst x)) nvs ! j = map (\<lambda>x. parse_name (fst x)) nvs ! k"
        using j k e by simp
      moreover have "j < length (map (\<lambda>x. parse_name (fst x)) nvs)"
        "k < length (map (\<lambda>x. parse_name (fst x)) nvs)" using j k by simp_all
      ultimately have "j = k" using d nth_eq_iff_index_eq by blast
      with j show "snd x = snd (nvs ! k)" by simp
    qed
  qed
  with eq show ?thesis by simp
qed

lemma merged_columns:
  fixes key :: ignite_tuple and data :: "bytes option list"
  assumes wf: "wf_schema sch" and dn: "distinct_names sch"
    and len: "int (length data) = int (length (columns sch)) - key_column_count sch"
  defines "nvs \<equiv> key_columns key (take (nat (key_column_count sch)) (columns sch))
             @ read_columns (drop (nat (key_column_count sch)) (columns sch)) data"
  shows "set_all [] nvs = nvs"
    and "length nvs = length (columns sch)"
    and "i < length (columns sch) \<Longrightarrow>
           get_name nvs (name (columns sch ! i)) =
             Inr (if int i < key_column_count sch then value_or_empty key (name (columns sch ! i))
                  else column_value (type (columns sch ! i))
                         (data ! (i - nat (key_column_count sch))))"
proof -
  let ?kc = "nat (key_column_count sch)"
  let ?keys = "take ?kc (columns sch)"
  let ?vals = "drop ?kc (columns sch)"
  have kc: "0 \<le> key_column_count sch" "?kc \<le> length (columns sch)"
    using wf by (auto simp: wf_schema_def)
  have lv: "length ?vals = length data" using len kc by simp
  have lk: "length (key_columns key ?keys) = ?kc"
    using kc by (simp add: key_columns_def)
  have "map (\<lambda>x. parse_name (fst x)) nvs
      = map (\<lambda>c. parse_name (name c)) ?keys @ map (\<lambda>c. parse_name (name c)) ?vals"
    unfolding nvs_def using read_columns_names [OF lv]
    by (simp add: key_columns_def comp_def)
  also have "\<dots> = map (\<lambda>c. parse_name (name c)) (?keys @ ?vals)"
    by (simp only: map_append)
  also have "\<dots> = map (\<lambda>c. parse_name (name c)) (columns sch)"
    by simp
  finally have d: "distinct (map (\<lambda>x. parse_name (fst x)) nvs)"
    using dn by (simp add: distinct_names_def)
  show "set_all [] nvs = nvs"
    using set_all_fresh [OF d, of "[]"] by (simp add: column_ordinal_Nil)
  show l: "length nvs = length (columns sch)"
    unfolding nvs_def using lk read_columns_length [OF lv] kc by simp
  show "get_name nvs (name (columns sch ! i)) =
      Inr (if int i < key_column_count sch then value_or_empty key (name (columns sch ! i))
           else column_value (type (columns sch ! i)) (data ! (i - ?kc)))"
    if i: "i < length (columns sch)"
  proof -
    have nth: "nvs ! i = (name (columns sch ! i),
        if int i < key_column_count sch then value_or_empty key (name (columns sch ! i))
        else column_value (type (columns sch ! i)) (data ! (i - ?kc)))"
    proof (cases "int i < key_column_count sch")
      case True
      then have lt: "i < ?kc" by simp
      then have "nvs ! i = key_columns key ?keys ! i"
        unfolding nvs_def using lk by (simp add: nth_append)
      then show ?thesis using True lt i by (simp add: key_columns_def)
    next
      case False
      then have ge: "\<not> i < ?kc" by simp
      then have "nvs ! i = read_columns ?vals data ! (i - ?kc)"
        unfolding nvs_def using lk by (simp add: nth_append)
      moreover have "i - ?kc < length ?vals" using ge i by simp
      ultimately show ?thesis
        using False ge i kc read_columns_nth [OF lv, of "i - ?kc"] by simp
    qed
    from get_name_distinct_nth [OF d, of i] i l nth show ?thesis by simp
  qed
qed

lemma read_tuple_key_Inr:
  assumes "wf_schema sch" and "distinct_names sch"
    and "read_tuple_key reader sch key = Inr (res, reader')"
  shows "\<exists>tuple_data. reader = Msg_binary tuple_data # reader'
      \<and> int (length tuple_data) = int (length (columns sch)) - key_column_count sch
      \<and> (\<forall>i < length (columns sch).
            get_name res (name (columns sch ! i)) =
              (if int i < key_column_count sch then get_name key (name (columns sch ! i))
               else Inr (column_value (type (columns sch ! i))
                           (tuple_data ! (i - nat (key_column_count sch))))))
      \<and> (\<forall>i < nat (key_column_count sch). 0 \<le> column_ordinal key (name (columns sch ! i)))"
proof -
  let ?kc = "nat (key_column_count sch)"
  let ?keys = "take ?kc (columns sch)"
  let ?vals = "drop ?kc (columns sch)"
  have kc: "0 \<le> key_column_count sch" "?kc \<le> length (columns sch)"
    using assms(1) by (auto simp: wf_schema_def)
  have keys_iff: "(\<forall>c \<in> set ?keys. 0 \<le> column_ordinal key (name c))
      \<longleftrightarrow> (\<forall>i < ?kc. 0 \<le> column_ordinal key (name (columns sch ! i)))"
    using kc by (auto simp: all_set_conv_all_nth)
  from assms(3) read_tuple_key_iff [OF assms(1), of reader key res reader'] obtain tuple_data where
    d: "reader = Msg_binary tuple_data # reader'"
      "\<forall>c \<in> set ?keys. 0 \<le> column_ordinal key (name c)"
      "list_all2 readable ?vals tuple_data"
      "res = set_all [] (key_columns key ?keys @ read_columns ?vals tuple_data)"
    by auto
  have len: "int (length tuple_data) = int (length (columns sch)) - key_column_count sch"
    using list_all2_lengthD [OF d(3)] kc by simp
  note m = merged_columns [OF assms(1,2) len, where key = key]
  have keys: "\<forall>i < ?kc. 0 \<le> column_ordinal key (name (columns sch ! i))"
    using d(2) keys_iff by simp
  have "get_name res (name (columns sch ! i)) =
      (if int i < key_column_count sch then get_name key (name (columns sch ! i))
       else Inr (column_value (type (columns sch ! i)) (tuple_data ! (i - ?kc))))"
    if "i < length (columns sch)" for i
  proof (cases "int i < key_column_count sch")
    case True
    then have "i < ?kc" by simp
    with keys have "get_name key (name (columns sch ! i))
        = Inr (value_or_empty key (name (columns sch ! i)))"
      by (simp add: get_name_present)
    with True m(1) m(3) [OF that] d(4) show ?thesis by simp
  next
    case False
    with m(1) m(3) [OF that] d(4) show ?thesis by simp
  qed
  with d(1) len keys show ?thesis by blast
qed

lemma read_tuple_key_ok:
  assumes "wf_schema sch"
    and "\<forall>i < nat (key_column_count sch). 0 \<le> column_ordinal key (name (columns sch ! i))"
    and "int (length data) = int (length (columns sch)) - key_column_count sch"
    and "\<forall>i < length data. readable (columns sch ! (nat (key_column_count sch) + i)) (data ! i)"
  shows "\<exists>r. read_tuple_key (Msg_binary data # rest) sch key = Inr (r, rest)"
proof -
  let ?kc = "nat (key_column_count sch)"
  let ?keys = "take ?kc (columns sch)"
  let ?vals = "drop ?kc (columns sch)"
  have kc: "0 \<le> key_column_count sch" "?kc \<le> length (columns sch)"
    using assms(1) by (auto simp: wf_schema_def)
  have keys: "\<forall>c \<in> set ?keys. 0 \<le> column_ordinal key (name c)"
    using kc assms(2) by (auto simp: all_set_conv_all_nth)
  have "length ?vals = length data" using assms(3) kc by simp
  then have "list_all2 readable ?vals data"
    using assms(4) kc by (simp add: list_all2_conv_all_nth)
  then show ?thesis
    using read_tuple_key_iff [OF assms(1), of "Msg_binary data # rest" key _ rest] keys by blast
qed

section \<open>Reading several tuples\<close>

lemma read_int32_Inr:
  "read_int32 r = Inr (i, r') \<longleftrightarrow> r = Msg_int32 i # r' \<and> - (2 ^ 31) \<le> i \<and> i < 2 ^ 31"
  by (auto simp: read_int32_def split: list.splits msgpack_object.splits)

lemma neg_mod_64:
  fixes i :: int
  assumes "- (2 ^ 31) \<le> i" "i < 0"
  shows "i mod 2 ^ 64 = i + 2 ^ 64"
proof -
  have "i mod 2 ^ 64 = (i + 2 ^ 64) mod 2 ^ 64" by simp
  also have "\<dots> = i + 2 ^ 64"
    using assms by (intro mod_pos_pos_trivial) simp_all
  finally show ?thesis .
qed

lemma reserve_Inr:
  assumes "- (2 ^ 31) \<le> i" "i < 2 ^ 31"
  shows "reserve (size_t i) = Inr u \<longleftrightarrow> 0 \<le> i"
proof (cases "0 \<le> i")
  case True
  with assms(2) have "i mod 2 ^ 64 = i" by simp
  with True assms(2) show ?thesis by (simp add: reserve_def size_t_def)
next
  case False
  with assms(1) have "i mod 2 ^ 64 = i + 2 ^ 64" by (intro neg_mod_64) simp_all
  with False assms(1) show ?thesis by (simp add: reserve_def size_t_def)
qed

lemma read_columns_fst:
  "length cs = length fs \<Longrightarrow> map fst (read_columns cs fs) = map name cs"
  by (induction cs fs rule: list_induct2) (simp_all add: read_columns_def)

lemma read_tuples_loop_Inr:
  "read_tuples_loop sch key_only cnt i (reader, res) = Inr (ts, reader') \<Longrightarrow> wf_schema sch \<Longrightarrow>
     \<exists>datas. length datas = nat (cnt - i)
       \<and> reader = map Msg_binary datas @ reader'
       \<and> (\<forall>d \<in> set datas.
             list_all2 readable (take (field_count sch key_only) (columns sch)) d)
       \<and> ts = res @ map (\<lambda>d. set_all []
                  (read_columns (take (field_count sch key_only) (columns sch)) d)) datas"
proof (induction sch key_only cnt i "(reader, res)" arbitrary: reader res
    rule: read_tuples_loop.induct)
  case (1 sch key_only cnt i reader res)
  note wf = 1(3)
  show ?case
  proof (cases "i < cnt")
    case False
    with 1(2) show ?thesis by (subst (asm) read_tuples_loop.simps) auto
  next
    case True
    from 1(2) True obtain t reader1 where
      rd: "read_tuple reader sch key_only = Inr (t, reader1)"
      and rec: "read_tuples_loop sch key_only cnt (i + 1) (reader1, res @ [t]) = Inr (ts, reader')"
      by (subst (asm) read_tuples_loop.simps) (auto simp: sum_case_Inr_iff)
    from rd read_tuple_iff [OF wf, of reader key_only t reader1] obtain d where
      d: "reader = Msg_binary d # reader1"
        "list_all2 readable (take (field_count sch key_only) (columns sch)) d"
        "t = set_all [] (read_columns (take (field_count sch key_only) (columns sch)) d)"
      by auto
    from "1.hyps" [OF True rd refl rec wf] obtain datas where
      ds: "length datas = nat (cnt - (i + 1))" "reader1 = map Msg_binary datas @ reader'"
        "\<forall>d \<in> set datas. list_all2 readable (take (field_count sch key_only) (columns sch)) d"
        "ts = (res @ [t]) @ map (\<lambda>d. set_all []
                  (read_columns (take (field_count sch key_only) (columns sch)) d)) datas"
      by auto
    show ?thesis
    proof (intro exI [of _ "d # datas"] conjI)
      show "length (d # datas) = nat (cnt - i)" using ds(1) True by simp
      show "reader = map Msg_binary (d # datas) @ reader'" using d(1) ds(2) by simp
      show "\<forall>d \<in> set (d # datas).
          list_all2 readable (take (field_count sch key_only) (columns sch)) d"
        using d(2) ds(3) by simp
      show "ts = res @ map (\<lambda>d. set_all []
                  (read_columns (take (field_count sch key_only) (columns sch)) d)) (d # datas)"
        using d(3) ds(4) by simp
    qed
  qed
qed

lemma read_tuples_Some_Inr:
  assumes wf: "wf_schema sch" and dn: "distinct_names sch"
    and rd: "read_tuples reader (Some sch) key_only = Inr (ts, reader')"
  shows "\<exists>datas. reader = Msg_int32 (int (length datas)) # map Msg_binary datas @ reader'
      \<and> (\<forall>d \<in> set datas. length d = field_count sch key_only)
      \<and> ts = map (read_columns (take (field_count sch key_only) (columns sch))) datas
      \<and> (\<forall>t \<in> set ts. map fst t = map name (take (field_count sch key_only) (columns sch)))"
proof -
  let ?cs = "take (field_count sch key_only) (columns sch)"
  have lcs: "length ?cs = field_count sch key_only"
    using field_count_le [OF wf, of key_only] by simp
  from rd obtain count reader0 where
    c: "reader = Msg_int32 count # reader0" "- (2 ^ 31) \<le> count" "count < 2 ^ 31"
    and rs: "reserve (size_t count) = Inr ()"
    and lp: "read_tuples_loop sch key_only count 0 (reader0, []) = Inr (ts, reader')"
    by (auto simp: read_tuples_def sum_case_Inr_iff read_int32_Inr)
  from rs reserve_Inr [OF c(2,3)] have nn: "0 \<le> count" by simp
  from read_tuples_loop_Inr [OF lp wf] obtain datas where
    ds: "length datas = nat count" "reader0 = map Msg_binary datas @ reader'"
      "\<forall>d \<in> set datas. list_all2 readable ?cs d"
      "ts = map (\<lambda>d. set_all [] (read_columns ?cs d)) datas"
    by auto
  have len: "length d = length ?cs" if "d \<in> set datas" for d
    using ds(3) that list_all2_lengthD by fastforce
  have ts: "ts = map (read_columns ?cs) datas"
    using ds(4) len set_all_read_columns [OF dn] by simp
  have "map fst t = map name ?cs" if "t \<in> set ts" for t
  proof -
    from that ts obtain d where d: "d \<in> set datas" "t = read_columns ?cs d" by auto
    from len [OF d(1)] have "map fst (read_columns ?cs d) = map name ?cs"
      by (intro read_columns_fst) simp
    with d show ?thesis by simp
  qed
  moreover have "count = int (length datas)" using ds(1) nn by simp
  ultimately show ?thesis using c(1) ds(2) ts len lcs by auto
qed

section \<open>Loading schemas\<close>

lemma add_schema_connection: "m_connection (add_schema table sch) = m_connection table"
  by (simp add: add_schema_def)

lemma load_schema_entries_connection:
  "m_connection (snd (load_schema_entries env objects (l, table))) = m_connection table"
  by (induction env objects "(l, table)" arbitrary: l table rule: load_schema_entries.induct)
    (auto simp: add_schema_connection split: sum.splits)

lemma load_schema_entries_all:
  "map (schema_read env) objects = map Inr schemas \<Longrightarrow>
     load_schema_entries env objects (l, table)
       = (Inr (if schemas = [] then l else Some (last schemas)), foldl add_schema table schemas)"
proof (induction objects arbitrary: schemas l table)
  case Nil
  then show ?case by simp
next
  case (Cons object objects)
  then obtain sch rest where s: "schemas = sch # rest" "schema_read env object = Inr sch"
    "map (schema_read env) objects = map Inr rest"
    by (cases schemas) auto
  from Cons(1) [OF s(3), of "Some sch" "add_schema table sch"] s(1,2)
  show ?case by simp
qed

lemma load_schema_reader_func_connection:
  "m_connection (snd (load_schema_reader_func env reader table)) = m_connection table"
  by (auto simp: load_schema_reader_func_def load_schema_entries_connection
      split: sum.splits prod.splits)

lemma perform_request_connection:
  assumes w: "writer_func [] = Inr request"
    and r: "\<And>response table. m_connection (snd (reader_func response table)) = m_connection table"
  shows "m_connection (snd (perform_request env op writer_func reader_func self))
     = m_connection self @ [(op, request)]"
proof (cases "server env op request")
  case (Inl e)
  with w show ?thesis by (simp add: perform_request_def Let_def)
next
  case (Inr response)
  let ?self1 = "self\<lparr>m_connection := m_connection self @ [(op, request)]\<rparr>"
  obtain res self2 where rf: "reader_func response ?self1 = (res, self2)"
    by (cases "reader_func response ?self1")
  with r [of response ?self1] have "m_connection self2 = m_connection self @ [(op, request)]"
    by simp
  with w Inr rf show ?thesis by (simp add: perform_request_def Let_def)
qed

lemma add_schema_cache:
  "0 \<le> version sch \<Longrightarrow>
     0 \<le> m_latest_schema_version (add_schema table sch) \<and> m_schemas (add_schema table sch) \<noteq> Map.empty"
  by (auto simp: add_schema_def fun_eq_iff)

lemma foldl_add_schema_cache:
  "\<forall>s \<in> set schemas. 0 \<le> version s \<Longrightarrow>
   (m_latest_schema_version table < 0 \<longleftrightarrow> m_schemas table = Map.empty) \<Longrightarrow>
     (m_latest_schema_version (foldl add_schema table schemas) < 0
        \<longleftrightarrow> m_schemas (foldl add_schema table schemas) = Map.empty)"
proof (induction schemas arbitrary: table)
  case Nil
  then show ?case by simp
next
  case (Cons s schemas)
  have "m_latest_schema_version (add_schema table s) < 0
      \<longleftrightarrow> m_schemas (add_schema table s) = Map.empty"
    using add_schema_cache [of s table] Cons(2) by auto
  with Cons show ?case by simp
qed

lemma m_schemas_add_schema:
  "m_schemas (add_schema table x) v = (if v = version x then Some (Some x) else m_schemas table v)"
  by (simp add: add_schema_def)

lemma foldl_add_schema_cached:
  "s \<in> set schemas \<Longrightarrow>
     \<exists>s' \<in> set schemas. version s' = version s
       \<and> m_schemas (foldl add_schema table schemas) (version s) = Some (Some s')"
proof (induction schemas rule: rev_induct)
  case Nil
  then show ?case by simp
next
  case (snoc x xs)
  show ?case
  proof (cases "version x = version s")
    case True
    then show ?thesis by (auto simp: m_schemas_add_schema)
  next
    case False
    with snoc(2) have "s \<in> set xs" by auto
    from snoc(1) [OF this] obtain s' where
      "s' \<in> set xs" "version s' = version s"
      "m_schemas (foldl add_schema table xs) (version s) = Some (Some s')"
      by auto
    with False show ?thesis by (auto simp: m_schemas_add_schema)
  qed
qed

section \<open>A request performed on the latest schema\<close>

lemma with_latest_perform_request_Delivered:
  assumes "with_latest_schema_async env
             (\<lambda>sch self. perform_request env op (writer_func sch self) reader_func self) self
           = (Delivered (Inr v), self2)"
  shows "\<exists>sch self0 request response.
           get_latest_schema_async env self = (Delivered (Inr (Some sch)), self0)
           \<and> writer_func sch self0 [] = Inr request
           \<and> server env op request = Inr response
           \<and> reader_func response (self0\<lparr>m_connection := m_connection self0 @ [(op, request)]\<rparr>)
               = (Inr v, self2)"
  using assms
  by (auto simp: with_latest_schema_async_def perform_request_def Let_def
      split: prod.splits outcome.splits sum.splits option.splits)

lemma get_and_reader_func_cases:
  assumes "get_schema env self reader = (Inr (rs, reader1), self1)"
  shows "get_and_upsert_reader_func env record reader self
           = (case rs of
                None \<Rightarrow> (Inr None, self1)
              | Some s \<Rightarrow>
                  (case read_tuple_key reader1 s record of
                     Inl e \<Rightarrow> (Inl e, self1)
                   | Inr (t, reader2) \<Rightarrow> (Inr (Some t), self1)))"
    and "get_and_replace_reader_func env record reader self
           = (case rs of
                None \<Rightarrow> (Inr None, self1)
              | Some s \<Rightarrow>
                  (case read_tuple_key reader1 s record of
                     Inl e \<Rightarrow> (Inl e, self1)
                   | Inr (t, reader2) \<Rightarrow> (Inr (Some t), self1)))"
    and "get_and_remove_reader_func env record reader self
           = (case rs of
                None \<Rightarrow> (Inr None, self1)
              | Some s \<Rightarrow>
                  (case read_tuple_key reader1 s record of
                     Inl e \<Rightarrow> (Inl e, self1)
                   | Inr (t, reader2) \<Rightarrow> (Inr (Some t), self1)))"
  using assms
  by (simp_all add: get_and_upsert_reader_func_def get_and_replace_reader_func_def
      get_and_remove_reader_func_def)

lemma get_and_reader_func_Some:
  assumes "get_and_upsert_reader_func env record reader self = (Inr (Some t), self2)
      \<or> get_and_replace_reader_func env record reader self = (Inr (Some t), self2)
      \<or> get_and_remove_reader_func env record reader self = (Inr (Some t), self2)"
  shows "\<exists>s reader1 reader2.
           get_schema env self reader = (Inr (Some s, reader1), self2)
           \<and> read_tuple_key reader1 s record = Inr (t, reader2)"
  using assms
  by (auto simp: get_and_upsert_reader_func_def get_and_replace_reader_func_def
      get_and_remove_reader_func_def split: prod.splits sum.splits option.splits)

lemma read_tuples_reader_func_cases:
  assumes "get_schema env self reader = (Inr (rs, reader1), self1)"
  shows "remove_all_reader_func env reader self
           = (case read_tuples reader1 rs True of
                Inl e \<Rightarrow> (Inl e, self1) | Inr (ts, reader2) \<Rightarrow> (Inr ts, self1))"
    and "remove_all_exact_reader_func env reader self
           = (case read_tuples reader1 rs False of
                Inl e \<Rightarrow> (Inl e, self1) | Inr (ts, reader2) \<Rightarrow> (Inr ts, self1))"
    and "insert_all_reader_func env reader self
           = (case read_tuples reader1 rs False of
                Inl e \<Rightarrow> (Inl e, self1) | Inr (ts, reader2) \<Rightarrow> (Inr ts, self1))"
  using assms
  by (simp_all add: remove_all_reader_func_def remove_all_exact_reader_func_def
      insert_all_reader_func_def)

lemma remove_all_reader_func_Inr:
  assumes "remove_all_reader_func env reader self = (Inr ts, self2)"
  shows "\<exists>rs reader1 reader2.
           get_schema env self reader = (Inr (rs, reader1), self2)
           \<and> read_tuples reader1 rs True = Inr (ts, reader2)"
  using assms
  by (auto simp: remove_all_reader_func_def split: prod.splits sum.splits)

lemma full_row_reader_func_Inr:
  assumes "remove_all_exact_reader_func env reader self = (Inr ts, self2)
      \<or> insert_all_reader_func env reader self = (Inr ts, self2)"
  shows "\<exists>rs reader1 reader2.
           get_schema env self reader = (Inr (rs, reader1), self2)
           \<and> read_tuples reader1 rs False = Inr (ts, reader2)"
  using assms
  by (auto simp: remove_all_exact_reader_func_def insert_all_reader_func_def
      split: prod.splits sum.splits)
section \<open>Operations with a transaction\<close>

text \<open>
  C1. With a transaction handle that is not null, every public data operation throws
  the error ``Transactions are not implemented'' to its caller before anything else:
  the callback is not invoked, the table is as it was, and so is the connection, which
  has sent no request.
\<close>

theorem transaction_rejected_by_throw:
  "get_async env (Some t) key self
     = (Thrown (ignite_error ''Transactions are not implemented''), self)
   \<and> get_all_async env (Some t) keys self
     = (Thrown (ignite_error ''Transactions are not implemented''), self)
   \<and> upsert_async env (Some t) record self
     = (Thrown (ignite_error ''Transactions are not implemented''), self)
   \<and> upsert_all_async env (Some t) records self
     = (Thrown (ignite_error ''Transactions are not implemented''), self)
   \<and> get_and_upsert_async env (Some t) record self
     = (Thrown (ignite_error ''Transactions are not implemented''), self)
   \<and> insert_async env (Some t) record self
     = (Thrown (ignite_error ''Transactions are not implemented''), self)
   \<and> insert_all_async env (Some t) records self
     = (Thrown (ignite_error ''Transactions are not implemented''), self)
   \<and> replace_async env (Some t) record self
     = (Thrown (ignite_error ''Transactions are not implemented''), self)
   \<and> replace_exact_async env (Some t) record new_record self
     = (Thrown (ignite_error ''Transactions are not implemented''), self)
   \<and> get_and_replace_async env (Some t) record self
     = (Thrown (ignite_error ''Transactions are not implemented''), self)
   \<and> remove_async env (Some t) key self
     = (Thrown (ignite_error ''Transactions are not implemented''), self)
   \<and> remove_exact_async env (Some t) record self
     = (Thrown (ignite_error ''Transactions are not implemented''), self)
   \<and> get_and_remove_async env (Some t) key self
     = (Thrown (ignite_error ''Transactions are not implemented''), self)
   \<and> remove_all_async env (Some t) keys self
     = (Thrown (ignite_error ''Transactions are not implemented''), self)
   \<and> remove_all_exact_async env (Some t) records self
     = (Thrown (ignite_error ''Transactions are not implemented''), self)"
  by (simp add: transactions_not_implemented_def get_async_def get_all_async_def
      upsert_async_def upsert_all_async_def get_and_upsert_async_def insert_async_def
      insert_all_async_def replace_async_def replace_exact_async_def
      get_and_replace_async_def remove_async_def remove_exact_async_def
      get_and_remove_async_def remove_all_async_def remove_all_exact_async_def)

text \<open>
  On the table of scenario S5, an upsert with a transaction: the connection of the
  result has sent nothing and the outcome is the exception.
\<close>

theorem transaction_rejected_by_throw_witness:
  "fst (upsert_async (mock []) (Some 0) [(''id'', Int64 42)] s1_table)
     = Thrown (ignite_error ''Transactions are not implemented'')
   \<and> m_connection (snd (upsert_async (mock []) (Some 0) [(''id'', Int64 42)] s1_table)) = []"
  using transaction_rejected_by_throw [of "mock []" 0 _ s1_table _ "[(''id'', Int64 42)]"]
  by (simp add: s1_table_def)

text \<open>
  The callback of that upsert does not get the error: the operation does not come to
  an invocation of the callback at all.
\<close>

theorem transaction_callback_counterexample:
  "upsert_async (mock []) (Some 0) [(''id'', Int64 42)] s1_table
     \<noteq> (Delivered (Inl (ignite_error ''Transactions are not implemented'')), s1_table)
   \<and> upsert_async (mock []) (Some 0) [(''id'', Int64 42)] s1_table
     = (Thrown (ignite_error ''Transactions are not implemented''), s1_table)"
  by (simp add: upsert_async_def transactions_not_implemented_def)

section \<open>What \<open>read_tuple\<close> produces\<close>

text \<open>
  C2. For a well-formed schema with distinct column names and either mode, a record
  that \<open>read_tuple(reader, schema, key_only)\<close> produces has exactly \<open>count\<close> fields,
  where \<open>count\<close> is \<open>key_column_count\<close> in key-only mode and the number of columns
  otherwise: field \<open>i\<close> has the name of column \<open>i\<close> and the value read from field \<open>i\<close>
  of the tuple, which has \<open>count\<close> fields. It does produce a record when the blob
  ahead has \<open>count\<close> fields, each absent or of a supported column type.
\<close>

theorem read_tuple_fills_count_columns:
  assumes "wf_schema sch" and "distinct_names sch"
  shows "(read_tuple reader sch key_only = Inr (res, reader') \<longrightarrow>
            length res = field_count sch key_only
            \<and> (\<exists>tuple_data. reader = Msg_binary tuple_data # reader'
                 \<and> length tuple_data = field_count sch key_only
                 \<and> (\<forall>i < field_count sch key_only.
                       res ! i = (name (columns sch ! i),
                                  column_value (type (columns sch ! i)) (tuple_data ! i)))))
       \<and> (length data = field_count sch key_only
            \<and> (\<forall>i < field_count sch key_only. readable (columns sch ! i) (data ! i)) \<longrightarrow>
          (\<exists>r. read_tuple (Msg_binary data # rest) sch key_only = Inr (r, rest)))"
proof -
  let ?n = "field_count sch key_only"
  let ?cs = "take ?n (columns sch)"
  have le: "?n \<le> length (columns sch)"
    by (rule field_count_le [OF assms(1)])
  then have lcs: "length ?cs = ?n" by simp
  have nth: "i < ?n \<Longrightarrow> ?cs ! i = columns sch ! i" for i by simp
  have a: "length res = ?n
      \<and> (\<exists>tuple_data. reader = Msg_binary tuple_data # reader' \<and> length tuple_data = ?n
           \<and> (\<forall>i < ?n. res ! i = (name (columns sch ! i),
                                   column_value (type (columns sch ! i)) (tuple_data ! i))))"
    if "read_tuple reader sch key_only = Inr (res, reader')"
  proof -
    from that read_tuple_iff [OF assms(1), of reader key_only res reader'] obtain tuple_data where
      d: "reader = Msg_binary tuple_data # reader'" "list_all2 readable ?cs tuple_data"
        "res = set_all [] (read_columns ?cs tuple_data)"
      by auto
    have len: "length tuple_data = length ?cs"
      using list_all2_lengthD [OF d(2)] by simp
    have res: "res = read_columns ?cs tuple_data"
      using d(3) set_all_read_columns [OF assms(2) len] by simp
    have "res ! i = (name (columns sch ! i), column_value (type (columns sch ! i)) (tuple_data ! i))"
      if "i < ?n" for i
      using that res read_columns_nth [OF len [symmetric], of i] lcs by simp
    moreover have "length res = ?n"
      using res read_columns_length [OF len [symmetric]] lcs by simp
    ultimately show ?thesis using d(1) len lcs by auto
  qed
  have b: "\<exists>r. read_tuple (Msg_binary data # rest) sch key_only = Inr (r, rest)"
    if "length data = ?n" and "\<forall>i < ?n. readable (columns sch ! i) (data ! i)"
  proof -
    have "list_all2 readable ?cs data"
      using that lcs by (simp add: list_all2_conv_all_nth)
    then show ?thesis
      using read_tuple_iff [OF assms(1), of "Msg_binary data # rest" key_only _ rest] by blast
  qed
  from a b show ?thesis by blast
qed

theorem read_tuple_fills_count_columns_witness:
  "wf_schema s1_schema \<and> distinct_names s1_schema
   \<and> read_tuple [Msg_binary [Some [42, 0, 0, 0, 0, 0, 0, 0]]] s1_schema True
       = Inr ([(''id'', Int64 42)], [])
   \<and> length [(''id'', Int64 42)] = field_count s1_schema True
   \<and> (\<exists>r. read_tuple [Msg_binary [None, Some [97]]] s1_schema False = Inr (r, []))"
proof -
  have wf: "wf_schema s1_schema"
    by (simp add: wf_schema_def s1_schema_def)
  have dn: "distinct_names s1_schema"
    by code_simp
  have rd: "read_tuple [Msg_binary [Some [42, 0, 0, 0, 0, 0, 0, 0]]] s1_schema True
       = Inr ([(''id'', Int64 42)], [])"
    by code_simp
  have ok: "length [None, Some [97 :: 8 word]] = field_count s1_schema False
      \<and> (\<forall>i < field_count s1_schema False.
            readable (columns s1_schema ! i) ([None, Some [97]] ! i))"
    by (simp add: field_count_def s1_schema_def readable_def less_Suc_eq)
  note t = read_tuple_fills_count_columns [OF wf dn]
  from t [of "[Msg_binary [Some [42, 0, 0, 0, 0, 0, 0, 0]]]" True "[(''id'', Int64 42)]" "[]"] rd
  have "length [(''id'', Int64 42)] = field_count s1_schema True" by blast
  moreover from t [of _ False _ _ "[None, Some [97]]" "[]"] ok
  have "\<exists>r. read_tuple [Msg_binary [None, Some [97]]] s1_schema False = Inr (r, [])" by blast
  ultimately show ?thesis using wf dn rd by blast
qed

text \<open>
  In key-only mode on the schema of the scenarios the record has one field, not one
  per column of the schema.
\<close>

theorem read_tuple_size_counterexample:
  "read_tuple [Msg_binary [Some [42, 0, 0, 0, 0, 0, 0, 0]]] s1_schema True
     = Inr ([(''id'', Int64 42)], [])
   \<and> length [(''id'', Int64 42)] \<noteq> length (columns s1_schema)"
  by code_simp

section \<open>The round trip of a record\<close>

text \<open>
  C3. For a well-formed schema, either mode, and a record whose values match the types
  of the columns of the mode it has a field for: \<open>write_tuple\<close> succeeds and writes
  the bitset and then the tuple; \<open>read_tuple\<close> in the same mode, with the tuple blob
  ahead, returns a record that holds, under every name of a column of the mode (up to
  case), the value the written record holds under that name, and the empty value when
  the written record has no such field. With \<open>key_only = false\<close> the columns of the
  mode are all columns, with \<open>key_only = true\<close> the key columns.
\<close>

theorem pack_unpack_round_trip:
  assumes "wf_schema sch"
    and "matches_on r (take (field_count sch key_only) (columns sch))"
  shows "\<exists>no_value tuple_data res.
      write_tuple writer sch r key_only
        = Inr (writer @ [Msg_bitset no_value, Msg_binary tuple_data])
      \<and> read_tuple (Msg_binary tuple_data # rest) sch key_only = Inr (res, rest)
      \<and> (\<forall>c \<in> set (take (field_count sch key_only) (columns sch)).
            \<forall>n. parse_name n = parse_name (name c) \<longrightarrow>
              get_name res n = Inr (value_or_empty r n))"
proof -
  let ?cs = "take (field_count sch key_only) (columns sch)"
  let ?data = "map (field_of r) ?cs"
  from write_tuple_ok [OF assms] obtain writer' where
    w: "write_tuple writer sch r key_only = Inr writer'" by auto
  from write_tuple_Inr [OF assms(1) w] obtain no_value where
    w': "writer' = writer @ [Msg_bitset no_value, Msg_binary ?data]" by auto
  have rd: "read_tuple (Msg_binary ?data # rest) sch key_only
      = Inr (set_all [] (read_columns ?cs ?data), rest)"
    using read_tuple_iff [OF assms(1), of "Msg_binary ?data # rest" key_only _ rest]
      readable_field_of [OF assms(2)] by blast
  have "get_name (set_all [] (read_columns ?cs ?data)) n = Inr (value_or_empty r n)"
    if "c \<in> set ?cs" and "parse_name n = parse_name (name c)" for c n
    using that read_columns_field_of [OF assms(2)] get_name_key_columns [of c ?cs n "[]" r]
    by simp
  with w w' rd show ?thesis by blast
qed

theorem pack_unpack_round_trip_witness:
  "wf_schema s1_schema
   \<and> matches_on [(''ID'', Int64 42)] (take (field_count s1_schema False) (columns s1_schema))
   \<and> write_tuple [] s1_schema [(''ID'', Int64 42)] False
       = Inr [Msg_bitset [2], Msg_binary [Some [42, 0, 0, 0, 0, 0, 0, 0], None]]
   \<and> (\<exists>res. read_tuple [Msg_binary [Some [42, 0, 0, 0, 0, 0, 0, 0], None]] s1_schema False
                = Inr (res, [])
          \<and> get_name res ''id'' = Inr (Int64 42) \<and> get_name res ''name'' = Inr Empty)"
proof -
  have wf: "wf_schema s1_schema"
    by (simp add: wf_schema_def s1_schema_def)
  have m: "matches_on [(''ID'', Int64 42)] (take (field_count s1_schema False) (columns s1_schema))"
    by code_simp
  have w: "write_tuple [] s1_schema [(''ID'', Int64 42)] False
       = Inr [Msg_bitset [2], Msg_binary [Some [42, 0, 0, 0, 0, 0, 0, 0], None]]"
    by code_simp
  from pack_unpack_round_trip [OF wf m, of "[]" "[]"] w obtain res where
    rd: "read_tuple [Msg_binary [Some [42, 0, 0, 0, 0, 0, 0, 0], None]] s1_schema False
          = Inr (res, [])"
    and all: "\<forall>c \<in> set (take (field_count s1_schema False) (columns s1_schema)).
            \<forall>n. parse_name n = parse_name (name c) \<longrightarrow>
              get_name res n = Inr (value_or_empty [(''ID'', Int64 42)] n)"
    by auto
  have c0: "columns s1_schema ! 0 \<in> set (take (field_count s1_schema False) (columns s1_schema))"
    and c1: "columns s1_schema ! 1 \<in> set (take (field_count s1_schema False) (columns s1_schema))"
    by (simp_all add: field_count_def s1_schema_def)
  have n0: "parse_name ''id'' = parse_name (name (columns s1_schema ! 0))"
    and n1: "parse_name ''name'' = parse_name (name (columns s1_schema ! 1))"
    by (simp_all add: s1_schema_def)
  have v0: "value_or_empty [(''ID'', Int64 42)] ''id'' = Int64 42"
    and v1: "value_or_empty [(''ID'', Int64 42)] ''name'' = Empty"
    by code_simp+
  from all c0 n0 v0 have "get_name res ''id'' = Inr (Int64 42)" by metis
  moreover from all c1 n1 v1 have "get_name res ''name'' = Inr Empty" by metis
  ultimately show ?thesis using wf m w rd by blast
qed

section \<open>The bits of the no-value bitset\<close>

text \<open>
  C4. When \<open>pack_tuple\<close> serializes a record against a well-formed schema into a
  bitset that starts with every bit clear, then for every field \<open>i\<close> of the tuple
  (\<open>i\<close> below the count of the mode) bit \<open>i\<close> of the bitset it leaves is set exactly
  when the record has no field named as column \<open>i\<close> (its ordinal lookup is negative),
  and exactly then field \<open>i\<close> of the tuple is built as absent; the tuple has one field
  per column of the mode. A value of zero bytes is a field that is present.
\<close>

theorem no_value_bitset_correct:
  assumes "wf_schema sch"
    and "pack_tuple sch r key_only no_value = Inr (tuple_data, no_value')"
    and "\<forall>j. \<not> bitset_test no_value j"
    and "i < field_count sch key_only"
  shows "(bitset_test no_value' i \<longleftrightarrow> column_ordinal r (name (columns sch ! i)) < 0)
     \<and> (bitset_test no_value' i \<longleftrightarrow> tuple_data ! i = None)
     \<and> length tuple_data = field_count sch key_only"
proof -
  note p = pack_tuple_Inr [OF assms(1,2)]
  have le: "field_count sch key_only \<le> length (columns sch)"
    by (rule field_count_le [OF assms(1)])
  have "tuple_data ! i = field_of r (columns sch ! i)"
    using p assms(4) le by simp
  then show ?thesis
    using p assms(3,4) le by (simp add: field_of_None)
qed

theorem no_value_bitset_correct_witness:
  "wf_schema s1_schema
   \<and> pack_tuple s1_schema [(''NAME'', Str '''')] False (bitset_span 1)
       = Inr ([None, Some []], [1])
   \<and> (\<forall>j. \<not> bitset_test (bitset_span 1) j)
   \<and> bitset_test [1] 0
   \<and> column_ordinal [(''NAME'', Str '''')] (name (columns s1_schema ! 0)) < 0
   \<and> \<not> bitset_test [1] 1
   \<and> 0 \<le> column_ordinal [(''NAME'', Str '''')] (name (columns s1_schema ! 1))"
proof -
  have wf: "wf_schema s1_schema"
    by (simp add: wf_schema_def s1_schema_def)
  have p: "pack_tuple s1_schema [(''NAME'', Str '''')] False (bitset_span 1)
       = Inr ([None, Some []], [1])"
    by code_simp
  have clear: "\<forall>j. \<not> bitset_test (bitset_span 1) j"
    by (simp add: bitset_span_clear)
  have lt0: "0 < field_count s1_schema False" and lt1: "1 < field_count s1_schema False"
    by (simp_all add: field_count_def s1_schema_def)
  have none0: "[None, Some []] ! 0 = (None :: bytes option)"
    and some1: "[None, Some []] ! 1 \<noteq> (None :: bytes option)"
    by simp_all
  from no_value_bitset_correct [OF wf p clear lt0] none0
  have b0: "bitset_test [1] 0"
    and c0: "column_ordinal [(''NAME'', Str '''')] (name (columns s1_schema ! 0)) < 0"
    by blast+
  from no_value_bitset_correct [OF wf p clear lt1] some1
  have b1: "\<not> bitset_test [1] 1"
    and c1: "0 \<le> column_ordinal [(''NAME'', Str '''')] (name (columns s1_schema ! 1))"
    by auto
  from wf p clear b0 c0 b1 c1 show ?thesis by blast
qed

section \<open>Merging the key back\<close>

text \<open>
  C5. For a well-formed schema with distinct column names, whatever the reader holds:
  when \<open>read_tuple(reader, schema, key_record)\<close> returns a record, the blob it has
  consumed is a tuple of \<open>columns.size() - key_column_count\<close> fields (the count its
  parser is built with); at every key column the record holds exactly what
  \<open>key_record.get\<close> gives for that column, and the key record has all key columns; at
  every value column it holds the value read from the field of the tuple at the
  position of the column among the value columns. It does return a record when the key
  record has all key columns and the blob has that many fields, each absent or of a
  supported column type.
\<close>

theorem read_tuple_merges_key:
  assumes "wf_schema sch" and "distinct_names sch"
  shows "(read_tuple_key reader sch key = Inr (res, reader') \<longrightarrow>
            (\<exists>tuple_data. reader = Msg_binary tuple_data # reader'
               \<and> int (length tuple_data) = int (length (columns sch)) - key_column_count sch
               \<and> (\<forall>i < length (columns sch).
                     get_name res (name (columns sch ! i)) =
                       (if int i < key_column_count sch
                        then get_name key (name (columns sch ! i))
                        else Inr (column_value (type (columns sch ! i))
                                    (tuple_data ! (i - nat (key_column_count sch))))))
               \<and> (\<forall>i < nat (key_column_count sch).
                     0 \<le> column_ordinal key (name (columns sch ! i)))))
       \<and> ((\<forall>i < nat (key_column_count sch). 0 \<le> column_ordinal key (name (columns sch ! i)))
            \<and> int (length data) = int (length (columns sch)) - key_column_count sch
            \<and> (\<forall>i < length data.
                  readable (columns sch ! (nat (key_column_count sch) + i)) (data ! i)) \<longrightarrow>
          (\<exists>r. read_tuple_key (Msg_binary data # rest) sch key = Inr (r, rest)))"
  using read_tuple_key_Inr [OF assms, of reader key res reader']
    read_tuple_key_ok [OF assms(1), of key data rest]
  by blast

theorem read_tuple_merges_key_witness:
  "wf_schema s1_schema \<and> distinct_names s1_schema
   \<and> read_tuple_key [Msg_binary [Some [97, 108, 105, 99, 101]]] s1_schema [(''ID'', Int64 42)]
       = Inr ([(''id'', Int64 42), (''name'', Str ''alice'')], [])
   \<and> get_name [(''id'', Int64 42), (''name'', Str ''alice'')] (name (columns s1_schema ! 0))
       = get_name [(''ID'', Int64 42)] (name (columns s1_schema ! 0))"
proof -
  have wf: "wf_schema s1_schema"
    by (simp add: wf_schema_def s1_schema_def)
  have dn: "distinct_names s1_schema"
    by code_simp
  have rd: "read_tuple_key [Msg_binary [Some [97, 108, 105, 99, 101]]] s1_schema [(''ID'', Int64 42)]
       = Inr ([(''id'', Int64 42), (''name'', Str ''alice'')], [])"
    by code_simp
  have "(0::nat) < length (columns s1_schema)" "int 0 < key_column_count s1_schema"
    by (simp_all add: s1_schema_def)
  with read_tuple_merges_key [OF wf dn, of _ "[(''ID'', Int64 42)]"] rd
  have "get_name [(''id'', Int64 42), (''name'', Str ''alice'')] (name (columns s1_schema ! 0))
       = get_name [(''ID'', Int64 42)] (name (columns s1_schema ! 0))"
    by fastforce
  with wf dn rd show ?thesis by blast
qed

section \<open>Loading the schemas of a table\<close>

text \<open>
  C6. \<open>load_schema_async\<close> sends one request, \<open>SCHEMAS_GET\<close> with the body
  \<open>(table_id, nil)\<close>, whatever comes back. When the response holds an empty schema
  map, the callback receives the error ``Schema not found'' and the cache is as it was.
  When the map is not empty and every entry parses, every parsed schema is inserted
  into the cache with \<open>add_schema\<close>, in the order of the map, so that the cache then
  holds a parsed schema under the version of each, and the callback receives the schema
  of the last entry.
\<close>

theorem load_schema_async_behaviour:
  "m_connection (snd (load_schema_async env self))
     = m_connection self @ [(SCHEMAS_GET, [Msg_uuid (m_id self), Msg_nil])]
   \<and> (server env SCHEMAS_GET [Msg_uuid (m_id self), Msg_nil] = Inr (Msg_map [] # rest) \<longrightarrow>
        load_schema_async env self
          = (Delivered (Inl (ignite_error ''Schema not found'')),
             self\<lparr>m_connection := m_connection self
                     @ [(SCHEMAS_GET, [Msg_uuid (m_id self), Msg_nil])]\<rparr>))
   \<and> (server env SCHEMAS_GET [Msg_uuid (m_id self), Msg_nil] = Inr (Msg_map objects # rest)
        \<and> objects \<noteq> [] \<and> map (schema_read env) objects = map Inr schemas \<longrightarrow>
        load_schema_async env self
          = (Delivered (Inr (Some (last schemas))),
             foldl add_schema
               (self\<lparr>m_connection := m_connection self
                       @ [(SCHEMAS_GET, [Msg_uuid (m_id self), Msg_nil])]\<rparr>)
               schemas)
        \<and> (\<forall>s \<in> set schemas. \<exists>s' \<in> set schemas. version s' = version s
              \<and> m_schemas (snd (load_schema_async env self)) (version s) = Some (Some s')))"
proof -
  let ?req = "[Msg_uuid (m_id self), Msg_nil]"
  let ?self1 = "self\<lparr>m_connection := m_connection self @ [(SCHEMAS_GET, ?req)]\<rparr>"
  have w: "load_schema_writer_func self [] = Inr ?req"
    by (simp add: load_schema_writer_func_def write_nil_def write_uuid_def)
  have a: "m_connection (snd (load_schema_async env self)) = m_connection self @ [(SCHEMAS_GET, ?req)]"
    unfolding load_schema_async_def
    by (rule perform_request_connection
        [where writer_func = "load_schema_writer_func self" and request = ?req, OF w])
      (rule load_schema_reader_func_connection)
  have b: "load_schema_async env self
      = (Delivered (Inl (ignite_error ''Schema not found'')), ?self1)"
    if "server env SCHEMAS_GET ?req = Inr (Msg_map [] # rest)"
    using that w
    by (simp add: load_schema_async_def perform_request_def Let_def load_schema_reader_func_def
        read_map_size_def)
  have c: "load_schema_async env self
      = (Delivered (Inr (Some (last schemas))), foldl add_schema ?self1 schemas)
      \<and> (\<forall>s \<in> set schemas. \<exists>s' \<in> set schemas. version s' = version s
            \<and> m_schemas (snd (load_schema_async env self)) (version s) = Some (Some s'))"
    if "server env SCHEMAS_GET ?req = Inr (Msg_map objects # rest)" and "objects \<noteq> []"
      and "map (schema_read env) objects = map Inr schemas"
  proof -
    from that(2,3) have ne: "schemas \<noteq> []" by auto
    from load_schema_entries_all [OF that(3), of None ?self1] ne
    have "load_schema_reader_func env (Msg_map objects # rest) ?self1
        = (Inr (Some (last schemas)), foldl add_schema ?self1 schemas)"
      using that(2) by (simp add: load_schema_reader_func_def read_map_size_def read_map_raw_def)
    with that(1) w have l: "load_schema_async env self
        = (Delivered (Inr (Some (last schemas))), foldl add_schema ?self1 schemas)"
      by (simp add: load_schema_async_def perform_request_def Let_def)
    then show ?thesis
      using foldl_add_schema_cached [of _ schemas ?self1] by simp
  qed
  from a b c show ?thesis by blast
qed

theorem load_schema_async_behaviour_witness:
  "server (mock [Msg_map [(Msg_int32 1, Msg_nil), (Msg_int32 2, Msg_nil)]]) SCHEMAS_GET
       [Msg_uuid (m_id empty_table), Msg_nil]
     = Inr (Msg_map [(Msg_int32 1, Msg_nil), (Msg_int32 2, Msg_nil)] # [])
   \<and> map (schema_read (mock [Msg_map [(Msg_int32 1, Msg_nil), (Msg_int32 2, Msg_nil)]]))
         [(Msg_int32 1, Msg_nil), (Msg_int32 2, Msg_nil)]
       = map Inr [s1_schema\<lparr>version := 1\<rparr>, s1_schema\<lparr>version := 2\<rparr>]
   \<and> fst (load_schema_async (mock [Msg_map [(Msg_int32 1, Msg_nil), (Msg_int32 2, Msg_nil)]])
           empty_table)
       = Delivered (Inr (Some (s1_schema\<lparr>version := 2\<rparr>)))
   \<and> m_latest_schema_version
         (snd (load_schema_async (mock [Msg_map [(Msg_int32 1, Msg_nil), (Msg_int32 2, Msg_nil)]])
           empty_table)) = 2
   \<and> m_schemas
         (snd (load_schema_async (mock [Msg_map [(Msg_int32 1, Msg_nil), (Msg_int32 2, Msg_nil)]])
           empty_table)) 1 = Some (Some (s1_schema\<lparr>version := 1\<rparr>))
   \<and> fst (load_schema_async (mock [Msg_map []]) empty_table)
       = Delivered (Inl (ignite_error ''Schema not found''))"
proof -
  let ?objects = "[(Msg_int32 1, Msg_nil), (Msg_int32 2, Msg_nil)]"
  let ?env = "mock [Msg_map ?objects]"
  have s: "server ?env SCHEMAS_GET [Msg_uuid (m_id empty_table), Msg_nil]
      = Inr (Msg_map ?objects # [])"
    by (simp add: mock_def)
  have m: "map (schema_read ?env) ?objects
      = map Inr [s1_schema\<lparr>version := 1\<rparr>, s1_schema\<lparr>version := 2\<rparr>]"
    by (simp add: mock_def mock_schema_read_def)
  have s0: "server (mock [Msg_map []]) SCHEMAS_GET [Msg_uuid (m_id empty_table), Msg_nil]
      = Inr (Msg_map [] # [])"
    by (simp add: mock_def)
  from load_schema_async_behaviour
    [of ?env empty_table "[]" ?objects "[s1_schema\<lparr>version := 1\<rparr>, s1_schema\<lparr>version := 2\<rparr>]"]
    s m
  have l: "load_schema_async ?env empty_table
      = (Delivered (Inr (Some (s1_schema\<lparr>version := 2\<rparr>))),
         foldl add_schema
           (empty_table\<lparr>m_connection := m_connection empty_table
               @ [(SCHEMAS_GET, [Msg_uuid (m_id empty_table), Msg_nil])]\<rparr>)
           [s1_schema\<lparr>version := 1\<rparr>, s1_schema\<lparr>version := 2\<rparr>])"
    by simp
  from load_schema_async_behaviour [of "mock [Msg_map []]" empty_table "[]"] s0
  have e: "fst (load_schema_async (mock [Msg_map []]) empty_table)
      = Delivered (Inl (ignite_error ''Schema not found''))"
    by simp
  from l have "m_latest_schema_version (snd (load_schema_async ?env empty_table)) = 2"
    and "m_schemas (snd (load_schema_async ?env empty_table)) 1
          = Some (Some (s1_schema\<lparr>version := 1\<rparr>))"
    by (simp_all add: add_schema_def empty_table_def)
  with s m l e show ?thesis by simp
qed

section \<open>The latest schema\<close>

text \<open>
  C7. \<open>get_latest_schema_async\<close> reads the latest schema version once. When it is not
  negative, the callback is invoked at once with the schema the cache holds under that
  version, and no request is sent; when the cache has an entry for the version the table
  is left as it was. When it is negative, the function is \<open>load_schema_async\<close> with the
  same callback. For a cache filled by \<open>add_schema\<close> from an empty one with schemas of
  versions that are not negative, the latest version is negative exactly when the cache
  is empty.
\<close>

theorem get_latest_schema_async_behaviour:
  "(0 \<le> m_latest_schema_version self \<longrightarrow>
      get_latest_schema_async env self
        = (Delivered (Inr (fst (schemas_at self (m_latest_schema_version self)))),
           snd (schemas_at self (m_latest_schema_version self)))
      \<and> m_connection (snd (get_latest_schema_async env self)) = m_connection self
      \<and> (\<forall>p. m_schemas self (m_latest_schema_version self) = Some p \<longrightarrow>
             get_latest_schema_async env self = (Delivered (Inr p), self)))
   \<and> (m_latest_schema_version self < 0 \<longrightarrow>
        get_latest_schema_async env self = load_schema_async env self)
   \<and> (m_schemas table = Map.empty \<and> m_latest_schema_version table = - 1
        \<and> (\<forall>s \<in> set schemas. 0 \<le> version s)
        \<and> self = foldl add_schema table schemas \<longrightarrow>
        (m_latest_schema_version self < 0 \<longleftrightarrow> m_schemas self = Map.empty))"
proof -
  have a: "get_latest_schema_async env self
        = (Delivered (Inr (fst (schemas_at self (m_latest_schema_version self)))),
           snd (schemas_at self (m_latest_schema_version self)))
      \<and> m_connection (snd (get_latest_schema_async env self)) = m_connection self
      \<and> (\<forall>p. m_schemas self (m_latest_schema_version self) = Some p \<longrightarrow>
             get_latest_schema_async env self = (Delivered (Inr p), self))"
    if "0 \<le> m_latest_schema_version self"
    using that
    by (auto simp: get_latest_schema_async_def Let_def schemas_at_def split: option.splits prod.splits)
  have b: "get_latest_schema_async env self = load_schema_async env self"
    if "m_latest_schema_version self < 0"
    using that by (simp add: get_latest_schema_async_def Let_def)
  have c: "m_latest_schema_version self < 0 \<longleftrightarrow> m_schemas self = Map.empty"
    if "m_schemas table = Map.empty" "m_latest_schema_version table = - 1"
      "\<forall>s \<in> set schemas. 0 \<le> version s" "self = foldl add_schema table schemas"
    using that foldl_add_schema_cache [of schemas table] by simp
  from a b c show ?thesis by blast
qed

theorem get_latest_schema_async_behaviour_witness:
  "0 \<le> m_latest_schema_version s1_table
   \<and> m_schemas s1_table (m_latest_schema_version s1_table) = Some (Some s1_schema)
   \<and> get_latest_schema_async (mock []) s1_table = (Delivered (Inr (Some s1_schema)), s1_table)
   \<and> m_latest_schema_version empty_table < 0
   \<and> get_latest_schema_async (mock []) empty_table = load_schema_async (mock []) empty_table
   \<and> m_connection (snd (get_latest_schema_async (mock []) empty_table))
       = [(SCHEMAS_GET, [Msg_uuid 7, Msg_nil])]"
proof -
  have v: "0 \<le> m_latest_schema_version s1_table"
    and m: "m_schemas s1_table (m_latest_schema_version s1_table) = Some (Some s1_schema)"
    and e: "m_latest_schema_version empty_table < 0"
    by (simp_all add: s1_table_def empty_table_def)
  from get_latest_schema_async_behaviour [of s1_table "mock []"] v m
  have g: "get_latest_schema_async (mock []) s1_table = (Delivered (Inr (Some s1_schema)), s1_table)"
    by blast
  from get_latest_schema_async_behaviour [of empty_table "mock []"] e
  have l: "get_latest_schema_async (mock []) empty_table = load_schema_async (mock []) empty_table"
    by blast
  have "m_connection (snd (load_schema_async (mock []) empty_table))
      = [(SCHEMAS_GET, [Msg_uuid 7, Msg_nil])]"
    by (simp add: load_schema_async_def perform_request_def load_schema_writer_func_def
        write_nil_def write_uuid_def mock_def load_schema_reader_func_def read_map_size_def
        empty_table_def Let_def)
  with v m e g l show ?thesis by simp
qed

section \<open>The responses of the get-and operations\<close>

text \<open>
  C8. \<open>get_and_upsert_async\<close>, \<open>get_and_replace_async\<close> and \<open>get_and_remove_async\<close>,
  called without a transaction on a table whose latest schema is \<open>sch\<close>. When the
  request is written, the cluster answers it and \<open>get_schema\<close> resolves the schema of
  the response, the operation delivers what its reader closure decodes from the
  response: \<open>nullopt\<close> when the resolved schema is null, whatever is left in the
  reader; otherwise the outcome of the key-merging \<open>read_tuple\<close> on the resolved schema
  with the request record as the key. Whenever one of the three operations delivers
  a record, it is the one the key-merging \<open>read_tuple\<close> returns for the
  request record on the response of the cluster, and, for a well-formed resolved schema
  with distinct column names, every key column of it holds what the request record
  holds for that column.
\<close>

theorem get_and_operations_merge_key:
  assumes "get_latest_schema_async env self = (Delivered (Inr (Some sch)), self0)"
  shows "(\<forall>request response rs reader1 self1.
            write_tuple (write_table_operation_header [] (m_id self0) sch) sch record False
              = Inr request
            \<and> server env TUPLE_GET_AND_UPSERT request = Inr response
            \<and> get_schema env
                  (self0\<lparr>m_connection := m_connection self0 @ [(TUPLE_GET_AND_UPSERT, request)]\<rparr>)
                  response
                = (Inr (rs, reader1), self1) \<longrightarrow>
            get_and_upsert_async env None record self
              = (case rs of
                   None \<Rightarrow> (Delivered (Inr None), self1)
                 | Some s \<Rightarrow>
                     (case read_tuple_key reader1 s record of
                        Inl e \<Rightarrow> (Delivered (Inl e), self1)
                      | Inr (t, reader2) \<Rightarrow> (Delivered (Inr (Some t)), self1))))
       \<and> (\<forall>request response rs reader1 self1.
            write_tuple (write_table_operation_header [] (m_id self0) sch) sch record False
              = Inr request
            \<and> server env TUPLE_GET_AND_REPLACE request = Inr response
            \<and> get_schema env
                  (self0\<lparr>m_connection := m_connection self0 @ [(TUPLE_GET_AND_REPLACE, request)]\<rparr>)
                  response
                = (Inr (rs, reader1), self1) \<longrightarrow>
            get_and_replace_async env None record self
              = (case rs of
                   None \<Rightarrow> (Delivered (Inr None), self1)
                 | Some s \<Rightarrow>
                     (case read_tuple_key reader1 s record of
                        Inl e \<Rightarrow> (Delivered (Inl e), self1)
                      | Inr (t, reader2) \<Rightarrow> (Delivered (Inr (Some t)), self1))))
       \<and> (\<forall>request response rs reader1 self1.
            write_tuple (write_table_operation_header [] (m_id self0) sch) sch record True
              = Inr request
            \<and> server env TUPLE_GET_AND_DELETE request = Inr response
            \<and> get_schema env
                  (self0\<lparr>m_connection := m_connection self0 @ [(TUPLE_GET_AND_DELETE, request)]\<rparr>)
                  response
                = (Inr (rs, reader1), self1) \<longrightarrow>
            get_and_remove_async env None record self
              = (case rs of
                   None \<Rightarrow> (Delivered (Inr None), self1)
                 | Some s \<Rightarrow>
                     (case read_tuple_key reader1 s record of
                        Inl e \<Rightarrow> (Delivered (Inl e), self1)
                      | Inr (t, reader2) \<Rightarrow> (Delivered (Inr (Some t)), self1))))
       \<and> (\<forall>t self2.
            get_and_upsert_async env None record self = (Delivered (Inr (Some t)), self2)
            \<or> get_and_replace_async env None record self = (Delivered (Inr (Some t)), self2)
            \<or> get_and_remove_async env None record self = (Delivered (Inr (Some t)), self2) \<longrightarrow>
            (\<exists>op request response s reader1 reader2.
               server env op request = Inr response
               \<and> get_schema env (self0\<lparr>m_connection := m_connection self0 @ [(op, request)]\<rparr>)
                     response
                   = (Inr (Some s, reader1), self2)
               \<and> read_tuple_key reader1 s record = Inr (t, reader2)
               \<and> (wf_schema s \<and> distinct_names s \<longrightarrow>
                    (\<forall>i < nat (key_column_count s).
                       get_name t (name (columns s ! i))
                         = get_name record (name (columns s ! i))))))"
proof -
  note latest = assms
  have upsert: "get_and_upsert_async env None record self
      = (case rs of
           None \<Rightarrow> (Delivered (Inr None), self1)
         | Some s \<Rightarrow>
             (case read_tuple_key reader1 s record of
                Inl e \<Rightarrow> (Delivered (Inl e), self1)
              | Inr (t, reader2) \<Rightarrow> (Delivered (Inr (Some t)), self1)))"
    if w: "write_tuple (write_table_operation_header [] (m_id self0) sch) sch record False
        = Inr request"
      and s: "server env TUPLE_GET_AND_UPSERT request = Inr response"
      and g: "get_schema env
          (self0\<lparr>m_connection := m_connection self0 @ [(TUPLE_GET_AND_UPSERT, request)]\<rparr>)
          response
        = (Inr (rs, reader1), self1)"
    for request response rs reader1 self1
  proof -
    have "get_and_upsert_async env None record self
        = (case get_and_upsert_reader_func env record response
                  (self0\<lparr>m_connection := m_connection self0 @ [(TUPLE_GET_AND_UPSERT, request)]\<rparr>) of
             (res, self2) \<Rightarrow> (Delivered res, self2))"
      using latest w s
      by (simp add: get_and_upsert_async_def transactions_not_implemented_def
          with_latest_schema_async_def perform_request_def Let_def)
    then show ?thesis
      by (simp add: get_and_reader_func_cases(1) [OF g] split: option.splits sum.splits)
  qed
  have replace: "get_and_replace_async env None record self
      = (case rs of
           None \<Rightarrow> (Delivered (Inr None), self1)
         | Some s \<Rightarrow>
             (case read_tuple_key reader1 s record of
                Inl e \<Rightarrow> (Delivered (Inl e), self1)
              | Inr (t, reader2) \<Rightarrow> (Delivered (Inr (Some t)), self1)))"
    if w: "write_tuple (write_table_operation_header [] (m_id self0) sch) sch record False
        = Inr request"
      and s: "server env TUPLE_GET_AND_REPLACE request = Inr response"
      and g: "get_schema env
          (self0\<lparr>m_connection := m_connection self0 @ [(TUPLE_GET_AND_REPLACE, request)]\<rparr>)
          response
        = (Inr (rs, reader1), self1)"
    for request response rs reader1 self1
  proof -
    have "get_and_replace_async env None record self
        = (case get_and_replace_reader_func env record response
                  (self0\<lparr>m_connection := m_connection self0 @ [(TUPLE_GET_AND_REPLACE, request)]\<rparr>) of
             (res, self2) \<Rightarrow> (Delivered res, self2))"
      using latest w s
      by (simp add: get_and_replace_async_def transactions_not_implemented_def
          with_latest_schema_async_def perform_request_def Let_def)
    then show ?thesis
      by (simp add: get_and_reader_func_cases(2) [OF g] split: option.splits sum.splits)
  qed
  have remove: "get_and_remove_async env None record self
      = (case rs of
           None \<Rightarrow> (Delivered (Inr None), self1)
         | Some s \<Rightarrow>
             (case read_tuple_key reader1 s record of
                Inl e \<Rightarrow> (Delivered (Inl e), self1)
              | Inr (t, reader2) \<Rightarrow> (Delivered (Inr (Some t)), self1)))"
    if w: "write_tuple (write_table_operation_header [] (m_id self0) sch) sch record True
        = Inr request"
      and s: "server env TUPLE_GET_AND_DELETE request = Inr response"
      and g: "get_schema env
          (self0\<lparr>m_connection := m_connection self0 @ [(TUPLE_GET_AND_DELETE, request)]\<rparr>)
          response
        = (Inr (rs, reader1), self1)"
    for request response rs reader1 self1
  proof -
    have "get_and_remove_async env None record self
        = (case get_and_remove_reader_func env record response
                  (self0\<lparr>m_connection := m_connection self0 @ [(TUPLE_GET_AND_DELETE, request)]\<rparr>) of
             (res, self2) \<Rightarrow> (Delivered res, self2))"
      using latest w s
      by (simp add: get_and_remove_async_def transactions_not_implemented_def
          with_latest_schema_async_def perform_request_def Let_def)
    then show ?thesis
      by (simp add: get_and_reader_func_cases(3) [OF g] split: option.splits sum.splits)
  qed
  have delivered: "\<exists>op request response s reader1 reader2.
      server env op request = Inr response
      \<and> get_schema env (self0\<lparr>m_connection := m_connection self0 @ [(op, request)]\<rparr>) response
          = (Inr (Some s, reader1), self2)
      \<and> read_tuple_key reader1 s record = Inr (t, reader2)
      \<and> (wf_schema s \<and> distinct_names s \<longrightarrow>
           (\<forall>i < nat (key_column_count s).
              get_name t (name (columns s ! i)) = get_name record (name (columns s ! i))))"
    if d: "get_and_upsert_async env None record self = (Delivered (Inr (Some t)), self2)
        \<or> get_and_replace_async env None record self = (Delivered (Inr (Some t)), self2)
        \<or> get_and_remove_async env None record self = (Delivered (Inr (Some t)), self2)"
    for t self2
  proof -
    have "\<exists>op request response.
        server env op request = Inr response
        \<and> (get_and_upsert_reader_func env record response
               (self0\<lparr>m_connection := m_connection self0 @ [(op, request)]\<rparr>)
             = (Inr (Some t), self2)
           \<or> get_and_replace_reader_func env record response
               (self0\<lparr>m_connection := m_connection self0 @ [(op, request)]\<rparr>)
             = (Inr (Some t), self2)
           \<or> get_and_remove_reader_func env record response
               (self0\<lparr>m_connection := m_connection self0 @ [(op, request)]\<rparr>)
             = (Inr (Some t), self2))"
      using d
    proof (elim disjE)
      assume "get_and_upsert_async env None record self = (Delivered (Inr (Some t)), self2)"
      then have "with_latest_schema_async env
          (\<lambda>sch self. perform_request env TUPLE_GET_AND_UPSERT
             (\<lambda>writer. write_tuple (write_table_operation_header writer (m_id self) sch)
                sch record False)
             (get_and_upsert_reader_func env record) self) self
          = (Delivered (Inr (Some t)), self2)"
        by (simp add: get_and_upsert_async_def transactions_not_implemented_def)
      from with_latest_perform_request_Delivered [OF this] latest show ?thesis
        by auto
    next
      assume "get_and_replace_async env None record self = (Delivered (Inr (Some t)), self2)"
      then have "with_latest_schema_async env
          (\<lambda>sch self. perform_request env TUPLE_GET_AND_REPLACE
             (\<lambda>writer. write_tuple (write_table_operation_header writer (m_id self) sch)
                sch record False)
             (get_and_replace_reader_func env record) self) self
          = (Delivered (Inr (Some t)), self2)"
        by (simp add: get_and_replace_async_def transactions_not_implemented_def)
      from with_latest_perform_request_Delivered [OF this] latest show ?thesis
        by auto
    next
      assume "get_and_remove_async env None record self = (Delivered (Inr (Some t)), self2)"
      then have "with_latest_schema_async env
          (\<lambda>sch self. perform_request env TUPLE_GET_AND_DELETE
             (\<lambda>writer. write_tuple (write_table_operation_header writer (m_id self) sch)
                sch record True)
             (get_and_remove_reader_func env record) self) self
          = (Delivered (Inr (Some t)), self2)"
        by (simp add: get_and_remove_async_def transactions_not_implemented_def)
      from with_latest_perform_request_Delivered [OF this] latest show ?thesis
        by auto
    qed
    then obtain op request response where sv: "server env op request = Inr response"
      and rf: "get_and_upsert_reader_func env record response
               (self0\<lparr>m_connection := m_connection self0 @ [(op, request)]\<rparr>)
             = (Inr (Some t), self2)
           \<or> get_and_replace_reader_func env record response
               (self0\<lparr>m_connection := m_connection self0 @ [(op, request)]\<rparr>)
             = (Inr (Some t), self2)
           \<or> get_and_remove_reader_func env record response
               (self0\<lparr>m_connection := m_connection self0 @ [(op, request)]\<rparr>)
             = (Inr (Some t), self2)"
      by blast
    from get_and_reader_func_Some [OF rf] obtain s reader1 reader2 where
      g: "get_schema env (self0\<lparr>m_connection := m_connection self0 @ [(op, request)]\<rparr>) response
          = (Inr (Some s, reader1), self2)"
      and rd: "read_tuple_key reader1 s record = Inr (t, reader2)"
      by blast
    have "get_name t (name (columns s ! i)) = get_name record (name (columns s ! i))"
      if wf: "wf_schema s" "distinct_names s" and i: "i < nat (key_column_count s)" for i
    proof -
      have "i < length (columns s)" "int i < key_column_count s"
        using wf(1) i by (auto simp: wf_schema_def)
      with read_tuple_key_Inr [OF wf rd] show ?thesis by auto
    qed
    with sv g rd show ?thesis by blast
  qed
  from upsert replace remove delivered show ?thesis by blast
qed

theorem get_and_operations_merge_key_witness:
  "get_latest_schema_async (mock [Msg_int32 1, Msg_binary [Some [97, 108, 105, 99, 101]]]) s1_table
     = (Delivered (Inr (Some s1_schema)), s1_table)
   \<and> write_tuple (write_table_operation_header [] (m_id s1_table) s1_schema) s1_schema
         [(''id'', Int64 42), (''name'', Str ''bob'')] False
       = Inr [Msg_uuid 7, Msg_nil, Msg_int32 1, Msg_bitset [0],
              Msg_binary [Some [42, 0, 0, 0, 0, 0, 0, 0], Some [98, 111, 98]]]
   \<and> get_and_upsert_async (mock [Msg_int32 1, Msg_binary [Some [97, 108, 105, 99, 101]]]) None
         [(''id'', Int64 42), (''name'', Str ''bob'')] s1_table
       = (Delivered (Inr (Some [(''id'', Int64 42), (''name'', Str ''alice'')])),
          s1_table\<lparr>m_connection :=
            [(TUPLE_GET_AND_UPSERT,
              [Msg_uuid 7, Msg_nil, Msg_int32 1, Msg_bitset [0],
               Msg_binary [Some [42, 0, 0, 0, 0, 0, 0, 0], Some [98, 111, 98]]])]\<rparr>)
   \<and> wf_schema s1_schema \<and> distinct_names s1_schema
   \<and> get_name [(''id'', Int64 42), (''name'', Str ''alice'')] (name (columns s1_schema ! 0))
       = get_name [(''id'', Int64 42), (''name'', Str ''bob'')] (name (columns s1_schema ! 0))"
proof -
  let ?env = "mock [Msg_int32 1, Msg_binary [Some [97, 108, 105, 99, 101]]]"
  let ?rec = "[(''id'', Int64 42), (''name'', Str ''bob'')]"
  let ?request = "[Msg_uuid 7, Msg_nil, Msg_int32 1, Msg_bitset [0],
     Msg_binary [Some [42, 0, 0, 0, 0, 0, 0, 0], Some [98, 111, 98]]]"
  let ?sent = "s1_table\<lparr>m_connection := m_connection s1_table @ [(TUPLE_GET_AND_UPSERT, ?request)]\<rparr>"
  have l: "get_latest_schema_async ?env s1_table = (Delivered (Inr (Some s1_schema)), s1_table)"
    by (simp add: get_latest_schema_async_def schemas_at_def s1_table_def Let_def)
  have w: "write_tuple (write_table_operation_header [] (m_id s1_table) s1_schema) s1_schema
      ?rec False = Inr ?request"
    by code_simp
  have sv: "server ?env TUPLE_GET_AND_UPSERT ?request
      = Inr [Msg_int32 1, Msg_binary [Some [97, 108, 105, 99, 101]]]"
    by (simp add: mock_def)
  have g: "get_schema ?env ?sent [Msg_int32 1, Msg_binary [Some [97, 108, 105, 99, 101]]]
      = (Inr (Some s1_schema, [Msg_binary [Some [97, 108, 105, 99, 101]]]), ?sent)"
    by (simp add: mock_def mock_get_schema_def s1_table_def)
  have rd: "read_tuple_key [Msg_binary [Some [97, 108, 105, 99, 101]]] s1_schema ?rec
      = Inr ([(''id'', Int64 42), (''name'', Str ''alice'')], [])"
    by code_simp
  have c: "m_connection s1_table = []"
    by (simp add: s1_table_def)
  note t = get_and_operations_merge_key [OF l, of ?rec]
  from t w sv g
  have "get_and_upsert_async ?env None ?rec s1_table
      = (case Some s1_schema of
           None \<Rightarrow> (Delivered (Inr None), ?sent)
         | Some s \<Rightarrow>
             (case read_tuple_key [Msg_binary [Some [97, 108, 105, 99, 101]]] s ?rec of
                Inl e \<Rightarrow> (Delivered (Inl e), ?sent)
              | Inr (t, reader2) \<Rightarrow> (Delivered (Inr (Some t)), ?sent)))"
    by blast
  with rd c have r: "get_and_upsert_async ?env None ?rec s1_table
      = (Delivered (Inr (Some [(''id'', Int64 42), (''name'', Str ''alice'')])),
         s1_table\<lparr>m_connection := [(TUPLE_GET_AND_UPSERT, ?request)]\<rparr>)"
    by simp
  have wf: "wf_schema s1_schema"
    by (simp add: wf_schema_def s1_schema_def)
  have dn: "distinct_names s1_schema"
    by code_simp
  from t r have "\<exists>op request response s reader1 reader2.
      server ?env op request = Inr response
      \<and> get_schema ?env (s1_table\<lparr>m_connection := m_connection s1_table @ [(op, request)]\<rparr>)
            response
          = (Inr (Some s, reader1),
             s1_table\<lparr>m_connection := [(TUPLE_GET_AND_UPSERT, ?request)]\<rparr>)
      \<and> read_tuple_key reader1 s ?rec
          = Inr ([(''id'', Int64 42), (''name'', Str ''alice'')], reader2)
      \<and> (wf_schema s \<and> distinct_names s \<longrightarrow>
           (\<forall>i < nat (key_column_count s).
              get_name [(''id'', Int64 42), (''name'', Str ''alice'')] (name (columns s ! i))
                = get_name ?rec (name (columns s ! i))))"
    by blast
  then obtain op request response s reader1 where
    sv': "server ?env op request = Inr response"
    and g': "get_schema ?env (s1_table\<lparr>m_connection := m_connection s1_table @ [(op, request)]\<rparr>)
            response
          = (Inr (Some s, reader1),
             s1_table\<lparr>m_connection := [(TUPLE_GET_AND_UPSERT, ?request)]\<rparr>)"
    and k: "wf_schema s \<and> distinct_names s \<longrightarrow>
           (\<forall>i < nat (key_column_count s).
              get_name [(''id'', Int64 42), (''name'', Str ''alice'')] (name (columns s ! i))
                = get_name ?rec (name (columns s ! i)))"
    by blast
  from sv' have "response = [Msg_int32 1, Msg_binary [Some [97, 108, 105, 99, 101]]]"
    by (simp add: mock_def)
  with g' have "s = s1_schema"
    by (simp add: mock_def mock_get_schema_def s1_table_def)
  moreover have "0 < nat (key_column_count s1_schema)"
    by (simp add: s1_schema_def)
  ultimately have "get_name [(''id'', Int64 42), (''name'', Str ''alice'')]
        (name (columns s1_schema ! 0))
      = get_name ?rec (name (columns s1_schema ! 0))"
    using k wf dn by blast
  with l w r wf dn show ?thesis by blast
qed
section \<open>A null schema\<close>



section \<open>The modes of the responses with several records\<close>

text \<open>
  C10. \<open>remove_all_async\<close>, \<open>remove_all_exact_async\<close> and \<open>insert_all_async\<close>, called
  without a transaction on a table whose latest schema is \<open>sch\<close>. When the request is
  written, the cluster answers it and \<open>get_schema\<close> resolves the schema of the response
  to \<open>s\<close>, \<open>remove_all_async\<close> delivers the outcome of \<open>read_tuples\<close> on the response in
  key-only mode, and the other two that of \<open>read_tuples\<close> in full-row mode. Whenever
  \<open>remove_all_async\<close> delivers records and the schema resolved from the response is
  well formed, with distinct column names, every tuple blob decoded from the response
  has \<open>key_column_count\<close> fields and gives a record of the key columns; whenever one of
  the other two delivers records, every tuple blob has one field per column and gives
  a record of all columns. The count ahead of the blobs is their number.
\<close>

theorem multi_record_response_modes:
  assumes "get_latest_schema_async env self = (Delivered (Inr (Some sch)), self0)"
  shows "(\<forall>request response s reader1 self1.
            write_tuples (write_table_operation_header [] (m_id self0) sch) sch records True
              = Inr request
            \<and> server env TUPLE_DELETE_ALL request = Inr response
            \<and> get_schema env
                  (self0\<lparr>m_connection := m_connection self0 @ [(TUPLE_DELETE_ALL, request)]\<rparr>)
                  response
                = (Inr (Some s, reader1), self1) \<longrightarrow>
            remove_all_async env None records self
              = (case read_tuples reader1 (Some s) True of
                   Inl e \<Rightarrow> (Delivered (Inl e), self1)
                 | Inr (ts, reader2) \<Rightarrow> (Delivered (Inr ts), self1)))
       \<and> (\<forall>request response s reader1 self1.
            write_tuples (write_table_operation_header [] (m_id self0) sch) sch records False
              = Inr request
            \<and> server env TUPLE_DELETE_ALL_EXACT request = Inr response
            \<and> get_schema env
                  (self0\<lparr>m_connection := m_connection self0 @ [(TUPLE_DELETE_ALL_EXACT, request)]\<rparr>)
                  response
                = (Inr (Some s, reader1), self1) \<longrightarrow>
            remove_all_exact_async env None records self
              = (case read_tuples reader1 (Some s) False of
                   Inl e \<Rightarrow> (Delivered (Inl e), self1)
                 | Inr (ts, reader2) \<Rightarrow> (Delivered (Inr ts), self1)))
       \<and> (\<forall>request response s reader1 self1.
            write_tuples (write_table_operation_header [] (m_id self0) sch) sch records False
              = Inr request
            \<and> server env TUPLE_INSERT_ALL request = Inr response
            \<and> get_schema env
                  (self0\<lparr>m_connection := m_connection self0 @ [(TUPLE_INSERT_ALL, request)]\<rparr>)
                  response
                = (Inr (Some s, reader1), self1) \<longrightarrow>
            insert_all_async env None records self
              = (case read_tuples reader1 (Some s) False of
                   Inl e \<Rightarrow> (Delivered (Inl e), self1)
                 | Inr (ts, reader2) \<Rightarrow> (Delivered (Inr ts), self1)))
       \<and> (\<forall>ts self2.
            remove_all_async env None records self = (Delivered (Inr ts), self2) \<longrightarrow>
            (\<exists>request response rs reader1 reader2.
               server env TUPLE_DELETE_ALL request = Inr response
               \<and> get_schema env
                     (self0\<lparr>m_connection := m_connection self0 @ [(TUPLE_DELETE_ALL, request)]\<rparr>)
                     response
                   = (Inr (rs, reader1), self2)
               \<and> read_tuples reader1 rs True = Inr (ts, reader2)
               \<and> (\<forall>s. rs = Some s \<and> wf_schema s \<and> distinct_names s \<longrightarrow>
                    (\<exists>datas.
                       reader1 = Msg_int32 (int (length datas)) # map Msg_binary datas @ reader2
                       \<and> (\<forall>d \<in> set datas. length d = nat (key_column_count s))
                       \<and> ts = map (read_columns (take (nat (key_column_count s)) (columns s))) datas
                       \<and> (\<forall>t \<in> set ts.
                             map fst t = map name (take (nat (key_column_count s)) (columns s)))))))
       \<and> (\<forall>ts self2.
            remove_all_exact_async env None records self = (Delivered (Inr ts), self2)
            \<or> insert_all_async env None records self = (Delivered (Inr ts), self2) \<longrightarrow>
            (\<exists>op request response rs reader1 reader2.
               server env op request = Inr response
               \<and> get_schema env (self0\<lparr>m_connection := m_connection self0 @ [(op, request)]\<rparr>)
                     response
                   = (Inr (rs, reader1), self2)
               \<and> read_tuples reader1 rs False = Inr (ts, reader2)
               \<and> (\<forall>s. rs = Some s \<and> wf_schema s \<and> distinct_names s \<longrightarrow>
                    (\<exists>datas.
                       reader1 = Msg_int32 (int (length datas)) # map Msg_binary datas @ reader2
                       \<and> (\<forall>d \<in> set datas. length d = length (columns s))
                       \<and> ts = map (read_columns (columns s)) datas
                       \<and> (\<forall>t \<in> set ts. map fst t = map name (columns s))))))"
proof -
  note latest = assms
  have fc: "field_count s True = nat (key_column_count s)"
      "field_count s False = length (columns s)" for s
    by (simp_all add: field_count_def)
  have remove_all: "remove_all_async env None records self
      = (case read_tuples reader1 (Some s) True of
           Inl e \<Rightarrow> (Delivered (Inl e), self1)
         | Inr (ts, reader2) \<Rightarrow> (Delivered (Inr ts), self1))"
    if w: "write_tuples (write_table_operation_header [] (m_id self0) sch) sch records True
        = Inr request"
      and s: "server env TUPLE_DELETE_ALL request = Inr response"
      and g: "get_schema env
          (self0\<lparr>m_connection := m_connection self0 @ [(TUPLE_DELETE_ALL, request)]\<rparr>)
          response
        = (Inr (Some s, reader1), self1)"
    for request response s reader1 self1
  proof -
    have "remove_all_async env None records self
        = (case remove_all_reader_func env response
                  (self0\<lparr>m_connection := m_connection self0 @ [(TUPLE_DELETE_ALL, request)]\<rparr>) of
             (res, self2) \<Rightarrow> (Delivered res, self2))"
      using latest w s
      by (simp add: remove_all_async_def transactions_not_implemented_def
          with_latest_schema_async_def perform_request_def Let_def)
    then show ?thesis
      by (simp add: read_tuples_reader_func_cases(1) [OF g] split: sum.splits)
  qed
  have remove_all_exact: "remove_all_exact_async env None records self
      = (case read_tuples reader1 (Some s) False of
           Inl e \<Rightarrow> (Delivered (Inl e), self1)
         | Inr (ts, reader2) \<Rightarrow> (Delivered (Inr ts), self1))"
    if w: "write_tuples (write_table_operation_header [] (m_id self0) sch) sch records False
        = Inr request"
      and s: "server env TUPLE_DELETE_ALL_EXACT request = Inr response"
      and g: "get_schema env
          (self0\<lparr>m_connection := m_connection self0 @ [(TUPLE_DELETE_ALL_EXACT, request)]\<rparr>)
          response
        = (Inr (Some s, reader1), self1)"
    for request response s reader1 self1
  proof -
    have "remove_all_exact_async env None records self
        = (case remove_all_exact_reader_func env response
                  (self0\<lparr>m_connection := m_connection self0 @ [(TUPLE_DELETE_ALL_EXACT, request)]\<rparr>) of
             (res, self2) \<Rightarrow> (Delivered res, self2))"
      using latest w s
      by (simp add: remove_all_exact_async_def transactions_not_implemented_def
          with_latest_schema_async_def perform_request_def Let_def)
    then show ?thesis
      by (simp add: read_tuples_reader_func_cases(2) [OF g] split: sum.splits)
  qed
  have insert_all: "insert_all_async env None records self
      = (case read_tuples reader1 (Some s) False of
           Inl e \<Rightarrow> (Delivered (Inl e), self1)
         | Inr (ts, reader2) \<Rightarrow> (Delivered (Inr ts), self1))"
    if w: "write_tuples (write_table_operation_header [] (m_id self0) sch) sch records False
        = Inr request"
      and s: "server env TUPLE_INSERT_ALL request = Inr response"
      and g: "get_schema env
          (self0\<lparr>m_connection := m_connection self0 @ [(TUPLE_INSERT_ALL, request)]\<rparr>)
          response
        = (Inr (Some s, reader1), self1)"
    for request response s reader1 self1
  proof -
    have "insert_all_async env None records self
        = (case insert_all_reader_func env response
                  (self0\<lparr>m_connection := m_connection self0 @ [(TUPLE_INSERT_ALL, request)]\<rparr>) of
             (res, self2) \<Rightarrow> (Delivered res, self2))"
      using latest w s
      by (simp add: insert_all_async_def transactions_not_implemented_def
          with_latest_schema_async_def perform_request_def Let_def)
    then show ?thesis
      by (simp add: read_tuples_reader_func_cases(3) [OF g] split: sum.splits)
  qed
  have keys: "\<exists>request response rs reader1 reader2.
      server env TUPLE_DELETE_ALL request = Inr response
      \<and> get_schema env
            (self0\<lparr>m_connection := m_connection self0 @ [(TUPLE_DELETE_ALL, request)]\<rparr>)
            response
          = (Inr (rs, reader1), self2)
      \<and> read_tuples reader1 rs True = Inr (ts, reader2)
      \<and> (\<forall>s. rs = Some s \<and> wf_schema s \<and> distinct_names s \<longrightarrow>
           (\<exists>datas.
              reader1 = Msg_int32 (int (length datas)) # map Msg_binary datas @ reader2
              \<and> (\<forall>d \<in> set datas. length d = nat (key_column_count s))
              \<and> ts = map (read_columns (take (nat (key_column_count s)) (columns s))) datas
              \<and> (\<forall>t \<in> set ts.
                    map fst t = map name (take (nat (key_column_count s)) (columns s)))))"
    if d: "remove_all_async env None records self = (Delivered (Inr ts), self2)" for ts self2
  proof -
    from d have "with_latest_schema_async env
        (\<lambda>sch self. perform_request env TUPLE_DELETE_ALL
           (\<lambda>writer. write_tuples (write_table_operation_header writer (m_id self) sch)
              sch records True)
           (remove_all_reader_func env) self) self
        = (Delivered (Inr ts), self2)"
      by (simp add: remove_all_async_def transactions_not_implemented_def)
    from with_latest_perform_request_Delivered [OF this] latest
    obtain request response where sv: "server env TUPLE_DELETE_ALL request = Inr response"
      and rf: "remove_all_reader_func env response
          (self0\<lparr>m_connection := m_connection self0 @ [(TUPLE_DELETE_ALL, request)]\<rparr>)
        = (Inr ts, self2)"
      by auto
    from remove_all_reader_func_Inr [OF rf] obtain rs reader1 reader2 where
      g: "get_schema env
            (self0\<lparr>m_connection := m_connection self0 @ [(TUPLE_DELETE_ALL, request)]\<rparr>)
            response
          = (Inr (rs, reader1), self2)"
      and rd: "read_tuples reader1 rs True = Inr (ts, reader2)"
      by blast
    have "\<exists>datas.
        reader1 = Msg_int32 (int (length datas)) # map Msg_binary datas @ reader2
        \<and> (\<forall>d \<in> set datas. length d = nat (key_column_count s))
        \<and> ts = map (read_columns (take (nat (key_column_count s)) (columns s))) datas
        \<and> (\<forall>t \<in> set ts. map fst t = map name (take (nat (key_column_count s)) (columns s)))"
      if "rs = Some s" "wf_schema s" "distinct_names s" for s
      using read_tuples_Some_Inr [OF that(2,3), of reader1 True ts reader2] rd that(1)
      unfolding fc by simp
    with sv g rd show ?thesis by blast
  qed
  have full: "\<exists>op request response rs reader1 reader2.
      server env op request = Inr response
      \<and> get_schema env (self0\<lparr>m_connection := m_connection self0 @ [(op, request)]\<rparr>) response
          = (Inr (rs, reader1), self2)
      \<and> read_tuples reader1 rs False = Inr (ts, reader2)
      \<and> (\<forall>s. rs = Some s \<and> wf_schema s \<and> distinct_names s \<longrightarrow>
           (\<exists>datas.
              reader1 = Msg_int32 (int (length datas)) # map Msg_binary datas @ reader2
              \<and> (\<forall>d \<in> set datas. length d = length (columns s))
              \<and> ts = map (read_columns (columns s)) datas
              \<and> (\<forall>t \<in> set ts. map fst t = map name (columns s))))"
    if d: "remove_all_exact_async env None records self = (Delivered (Inr ts), self2)
        \<or> insert_all_async env None records self = (Delivered (Inr ts), self2)"
    for ts self2
  proof -
    have "\<exists>op request response.
        server env op request = Inr response
        \<and> (remove_all_exact_reader_func env response
               (self0\<lparr>m_connection := m_connection self0 @ [(op, request)]\<rparr>)
             = (Inr ts, self2)
           \<or> insert_all_reader_func env response
               (self0\<lparr>m_connection := m_connection self0 @ [(op, request)]\<rparr>)
             = (Inr ts, self2))"
      using d
    proof (elim disjE)
      assume "remove_all_exact_async env None records self = (Delivered (Inr ts), self2)"
      then have "with_latest_schema_async env
          (\<lambda>sch self. perform_request env TUPLE_DELETE_ALL_EXACT
             (\<lambda>writer. write_tuples (write_table_operation_header writer (m_id self) sch)
                sch records False)
             (remove_all_exact_reader_func env) self) self
          = (Delivered (Inr ts), self2)"
        by (simp add: remove_all_exact_async_def transactions_not_implemented_def)
      from with_latest_perform_request_Delivered [OF this] latest show ?thesis
        by auto
    next
      assume "insert_all_async env None records self = (Delivered (Inr ts), self2)"
      then have "with_latest_schema_async env
          (\<lambda>sch self. perform_request env TUPLE_INSERT_ALL
             (\<lambda>writer. write_tuples (write_table_operation_header writer (m_id self) sch)
                sch records False)
             (insert_all_reader_func env) self) self
          = (Delivered (Inr ts), self2)"
        by (simp add: insert_all_async_def transactions_not_implemented_def)
      from with_latest_perform_request_Delivered [OF this] latest show ?thesis
        by auto
    qed
    then obtain op request response where sv: "server env op request = Inr response"
      and rf: "remove_all_exact_reader_func env response
               (self0\<lparr>m_connection := m_connection self0 @ [(op, request)]\<rparr>)
             = (Inr ts, self2)
           \<or> insert_all_reader_func env response
               (self0\<lparr>m_connection := m_connection self0 @ [(op, request)]\<rparr>)
             = (Inr ts, self2)"
      by blast
    from full_row_reader_func_Inr [OF rf] obtain rs reader1 reader2 where
      g: "get_schema env (self0\<lparr>m_connection := m_connection self0 @ [(op, request)]\<rparr>) response
          = (Inr (rs, reader1), self2)"
      and rd: "read_tuples reader1 rs False = Inr (ts, reader2)"
      by blast
    have "\<exists>datas.
        reader1 = Msg_int32 (int (length datas)) # map Msg_binary datas @ reader2
        \<and> (\<forall>d \<in> set datas. length d = length (columns s))
        \<and> ts = map (read_columns (columns s)) datas
        \<and> (\<forall>t \<in> set ts. map fst t = map name (columns s))"
      if "rs = Some s" "wf_schema s" "distinct_names s" for s
      using read_tuples_Some_Inr [OF that(2,3), of reader1 False ts reader2] rd that(1)
      unfolding fc by simp
    with sv g rd show ?thesis by blast
  qed
  from remove_all remove_all_exact insert_all keys full show ?thesis by blast
qed

theorem multi_record_response_modes_witness:
  "get_latest_schema_async
       (mock [Msg_int32 1, Msg_int32 1, Msg_binary [Some [42, 0, 0, 0, 0, 0, 0, 0]]]) s1_table
     = (Delivered (Inr (Some s1_schema)), s1_table)
   \<and> write_tuples (write_table_operation_header [] (m_id s1_table) s1_schema) s1_schema
         [[(''id'', Int64 42)]] True
       = Inr [Msg_uuid 7, Msg_nil, Msg_int32 1, Msg_int32 1, Msg_bitset [0],
              Msg_binary [Some [42, 0, 0, 0, 0, 0, 0, 0]]]
   \<and> wf_schema s1_schema \<and> distinct_names s1_schema
   \<and> remove_all_async
         (mock [Msg_int32 1, Msg_int32 1, Msg_binary [Some [42, 0, 0, 0, 0, 0, 0, 0]]]) None
         [[(''id'', Int64 42)]] s1_table
       = (Delivered (Inr [[(''id'', Int64 42)]]),
          s1_table\<lparr>m_connection :=
            [(TUPLE_DELETE_ALL,
              [Msg_uuid 7, Msg_nil, Msg_int32 1, Msg_int32 1, Msg_bitset [0],
               Msg_binary [Some [42, 0, 0, 0, 0, 0, 0, 0]]])]\<rparr>)
   \<and> map fst [(''id'', Int64 42)]
       = map name (take (nat (key_column_count s1_schema)) (columns s1_schema))
   \<and> fst (remove_all_exact_async
         (mock [Msg_int32 1, Msg_int32 1, Msg_binary [Some [42, 0, 0, 0, 0, 0, 0, 0]]]) None
         [[(''id'', Int64 42)]] s1_table)
       = Delivered (Inl Protocol)"
proof -
  let ?response = "[Msg_int32 1, Msg_int32 1, Msg_binary [Some [42, 0, 0, 0, 0, 0, 0, 0]]]"
  let ?env = "mock ?response"
  let ?records = "[[(''id'', Int64 42)]]"
  let ?request = "[Msg_uuid 7, Msg_nil, Msg_int32 1, Msg_int32 1, Msg_bitset [0],
     Msg_binary [Some [42, 0, 0, 0, 0, 0, 0, 0]]]"
  let ?request_exact = "[Msg_uuid 7, Msg_nil, Msg_int32 1, Msg_int32 1, Msg_bitset [2],
     Msg_binary [Some [42, 0, 0, 0, 0, 0, 0, 0], None]]"
  let ?sent = "s1_table\<lparr>m_connection := m_connection s1_table @ [(TUPLE_DELETE_ALL, ?request)]\<rparr>"
  let ?sent_exact = "s1_table\<lparr>m_connection :=
     m_connection s1_table @ [(TUPLE_DELETE_ALL_EXACT, ?request_exact)]\<rparr>"
  have wf: "wf_schema s1_schema"
    by (simp add: wf_schema_def s1_schema_def)
  have dn: "distinct_names s1_schema"
    by code_simp
  have l: "get_latest_schema_async ?env s1_table = (Delivered (Inr (Some s1_schema)), s1_table)"
    by (simp add: get_latest_schema_async_def schemas_at_def s1_table_def Let_def)
  have w: "write_tuples (write_table_operation_header [] (m_id s1_table) s1_schema) s1_schema
      ?records True = Inr ?request"
    by code_simp
  have we: "write_tuples (write_table_operation_header [] (m_id s1_table) s1_schema) s1_schema
      ?records False = Inr ?request_exact"
    by code_simp
  have sv: "server ?env TUPLE_DELETE_ALL ?request = Inr ?response"
    and sve: "server ?env TUPLE_DELETE_ALL_EXACT ?request_exact = Inr ?response"
    by (simp_all add: mock_def)
  have g: "get_schema ?env ?sent ?response
      = (Inr (Some s1_schema, [Msg_int32 1, Msg_binary [Some [42, 0, 0, 0, 0, 0, 0, 0]]]), ?sent)"
    and ge: "get_schema ?env ?sent_exact ?response
      = (Inr (Some s1_schema, [Msg_int32 1, Msg_binary [Some [42, 0, 0, 0, 0, 0, 0, 0]]]),
         ?sent_exact)"
    by (simp_all add: mock_def mock_get_schema_def s1_table_def)
  have k: "read_tuples [Msg_int32 1, Msg_binary [Some [42, 0, 0, 0, 0, 0, 0, 0]]]
         (Some s1_schema) True = Inr ([[(''id'', Int64 42)]], [])"
    by code_simp
  have f: "read_tuples [Msg_int32 1, Msg_binary [Some [42, 0, 0, 0, 0, 0, 0, 0]]]
         (Some s1_schema) False = Inl Protocol"
    by code_simp
  have c: "m_connection s1_table = []"
    by (simp add: s1_table_def)
  note t = multi_record_response_modes [OF l, of ?records]
  from t [THEN conjunct1, rule_format, OF conjI [OF w conjI [OF sv g]]]
  have "remove_all_async ?env None ?records s1_table
      = (case read_tuples [Msg_int32 1, Msg_binary [Some [42, 0, 0, 0, 0, 0, 0, 0]]]
                (Some s1_schema) True of
           Inl e \<Rightarrow> (Delivered (Inl e), ?sent)
         | Inr (ts, reader2) \<Rightarrow> (Delivered (Inr ts), ?sent))"
    .
  with k c have r: "remove_all_async ?env None ?records s1_table
      = (Delivered (Inr [[(''id'', Int64 42)]]),
         s1_table\<lparr>m_connection := [(TUPLE_DELETE_ALL, ?request)]\<rparr>)"
    by simp
  from t [THEN conjunct2, THEN conjunct1, rule_format, OF conjI [OF we conjI [OF sve ge]]]
  have "remove_all_exact_async ?env None ?records s1_table
      = (case read_tuples [Msg_int32 1, Msg_binary [Some [42, 0, 0, 0, 0, 0, 0, 0]]]
                (Some s1_schema) False of
           Inl e \<Rightarrow> (Delivered (Inl e), ?sent_exact)
         | Inr (ts, reader2) \<Rightarrow> (Delivered (Inr ts), ?sent_exact))"
    .
  with f have e: "fst (remove_all_exact_async ?env None ?records s1_table)
      = Delivered (Inl Protocol)"
    by simp
  from t [THEN conjunct2, THEN conjunct2, THEN conjunct2, THEN conjunct1, rule_format, OF r]
  have "\<exists>request response rs reader1 reader2.
      server ?env TUPLE_DELETE_ALL request = Inr response
      \<and> get_schema ?env
            (s1_table\<lparr>m_connection := m_connection s1_table @ [(TUPLE_DELETE_ALL, request)]\<rparr>)
            response
          = (Inr (rs, reader1), s1_table\<lparr>m_connection := [(TUPLE_DELETE_ALL, ?request)]\<rparr>)
      \<and> read_tuples reader1 rs True = Inr (?records, reader2)
      \<and> (\<forall>s. rs = Some s \<and> wf_schema s \<and> distinct_names s \<longrightarrow>
           (\<exists>datas.
              reader1 = Msg_int32 (int (length datas)) # map Msg_binary datas @ reader2
              \<and> (\<forall>d \<in> set datas. length d = nat (key_column_count s))
              \<and> ?records = map (read_columns (take (nat (key_column_count s)) (columns s))) datas
              \<and> (\<forall>t \<in> set ?records.
                    map fst t = map name (take (nat (key_column_count s)) (columns s)))))"
    .
  then obtain request response rs reader1 reader2 where
    sv': "server ?env TUPLE_DELETE_ALL request = Inr response"
    and g': "get_schema ?env
            (s1_table\<lparr>m_connection := m_connection s1_table @ [(TUPLE_DELETE_ALL, request)]\<rparr>)
            response
          = (Inr (rs, reader1), s1_table\<lparr>m_connection := [(TUPLE_DELETE_ALL, ?request)]\<rparr>)"
    and m: "\<forall>s. rs = Some s \<and> wf_schema s \<and> distinct_names s \<longrightarrow>
           (\<exists>datas.
              reader1 = Msg_int32 (int (length datas)) # map Msg_binary datas @ reader2
              \<and> (\<forall>d \<in> set datas. length d = nat (key_column_count s))
              \<and> ?records = map (read_columns (take (nat (key_column_count s)) (columns s))) datas
              \<and> (\<forall>t \<in> set ?records.
                    map fst t = map name (take (nat (key_column_count s)) (columns s))))"
    by blast
  from sv' have "response = ?response"
    by (simp add: mock_def)
  with g' have "rs = Some s1_schema"
    by (simp add: mock_def mock_get_schema_def s1_table_def)
  with m wf dn have "\<forall>t \<in> set ?records.
      map fst t = map name (take (nat (key_column_count s1_schema)) (columns s1_schema))"
    by blast
  then have "map fst [(''id'', Int64 42)]
       = map name (take (nat (key_column_count s1_schema)) (columns s1_schema))"
    by simp
  with l w wf dn r e show ?thesis by blast
qed

end
